theory Spec2Isabelle
  imports Main
begin

section \<open>The LRU cache of package lrucache\<close>

text \<open>
  The package keeps a doubly linked list of elements (Go's container/list), youngest at the
  front, and a map from keys to pointers into that list. Elements are shared between the
  list and the map, and \<open>add\<close> overwrites the payload of the oldest element in place, so
  the model keeps an explicit store: an element pointer is an address, the store maps an
  address to the payload the element carries, the list is the sequence of addresses from
  front to back, and the map sends a key to an address.

  Keys and values are \<open>interface{}\<close> in the source; here they are two type parameters.
  A key is compared with the equality of its type, which is what the source asks of its
  callers ("the comparison operators == and != must be fully defined for operands of the
  key type").

  The mutex is not modelled: every public method holds it from entry to exit, so the
  methods are taken as atomic steps on the state. Go's \<open>int\<close> is modelled by \<open>int\<close>:
  the only arithmetic is \<open>Len() - size\<close> with \<open>0 \<le> Len()\<close> and \<open>0 < size\<close>, which
  cannot wrap.
\<close>

subsection \<open>Errors and panics\<close>

datatype error = ErrNotFound | ErrNotStored

text \<open>
  \<open>SizePanic\<close> is the explicit panic of \<open>New\<close>; \<open>NilDereference\<close> is the run-time
  panic of reading \<open>e.Value\<close> through a nil element pointer. \<open>InvalidAddress\<close> is the
  answer of the model when an address has no payload in the store; a Go pointer is nil or
  valid, so this outcome has no counterpart in a Go execution.
\<close>

datatype panic = SizePanic int | NilDereference | InvalidAddress

subsection \<open>Data\<close>

record ('k, 'v) payload =
  Key :: 'k
  Value :: 'v

type_synonym element = nat

text \<open>
  \<open>size_c\<close>, \<open>lruList\<close> and \<open>itemMap\<close> are the fields of the struct \<open>Cache\<close>.
  \<open>elements\<close> is the store of the list elements ever allocated and \<open>fresh\<close> the next
  unused address.
\<close>

record ('k, 'v) Cache =
  size_c :: int
  lruList :: "element list"
  itemMap :: "'k \<rightharpoonup> element"
  elements :: "element \<rightharpoonup> ('k, 'v) payload"
  fresh :: element

subsection \<open>The operations of container/list that the package calls\<close>

text \<open>
  \<open>Len\<close> is the number of elements. \<open>Back\<close> is nil on an empty list and the last element
  otherwise. \<open>MoveToFront(e)\<close> does nothing when \<open>e\<close> is not an element of the list or is
  already its front. \<open>Remove(e)\<close> unlinks \<open>e\<close> when it is an element of the list.
  \<open>PushFront(v)\<close> allocates a new element for \<open>v\<close>, links it at the front and returns it.
\<close>

definition list_Len :: "element list \<Rightarrow> int" where
  "list_Len l = int (length l)"

definition list_Back :: "element list \<Rightarrow> element option" where
  "list_Back l = (if l = [] then None else Some (last l))"

definition list_MoveToFront :: "element \<Rightarrow> element list \<Rightarrow> element list" where
  "list_MoveToFront e l = (if e \<notin> set l \<or> hd l = e then l else e # remove1 e l)"

definition list_Remove :: "element \<Rightarrow> element list \<Rightarrow> element list" where
  "list_Remove e l = (if e \<in> set l then remove1 e l else l)"

definition list_PushFront ::
  "('k, 'v) payload \<Rightarrow> ('k, 'v) Cache \<Rightarrow> element \<times> ('k, 'v) Cache" where
  "list_PushFront p c =
     (fresh c,
      c\<lparr>lruList := fresh c # lruList c,
        elements := (elements c)(fresh c \<mapsto> p),
        fresh := Suc (fresh c)\<rparr>)"

subsection \<open>The methods of Cache\<close>

definition New :: "int \<Rightarrow> panic + ('k, 'v) Cache" where
  "New n =
     (if n \<le> 0 then Inl (SizePanic n)
      else Inr \<lparr>size_c = n, lruList = [], itemMap = Map.empty,
                elements = Map.empty, fresh = 0\<rparr>)"

definition Size :: "('k, 'v) Cache \<Rightarrow> int" where
  "Size c = size_c c"

definition Len :: "('k, 'v) Cache \<Rightarrow> int" where
  "Len c = list_Len (lruList c)"

definition Purge :: "('k, 'v) Cache \<Rightarrow> ('k, 'v) Cache" where
  "Purge c = c\<lparr>lruList := [], itemMap := Map.empty\<rparr>"

text \<open>\<open>add\<close> is called only for a key that the map does not hold.\<close>

definition add :: "'k \<Rightarrow> 'v \<Rightarrow> ('k, 'v) Cache \<Rightarrow> panic + ('k, 'v) Cache" where
  "add k v c =
     (if list_Len (lruList c) \<ge> size_c c then
        (case list_Back (lruList c) of
           None \<Rightarrow> Inl NilDereference
         | Some e \<Rightarrow>
             (case elements c e of
                None \<Rightarrow> Inl InvalidAddress
              | Some p \<Rightarrow>
                  Inr (c\<lparr>itemMap := ((itemMap c)(Key p := None))(k \<mapsto> e),
                         elements := (elements c)(e \<mapsto> \<lparr>Key = k, Value = v\<rparr>),
                         lruList := list_MoveToFront e (lruList c)\<rparr>)))
      else
        (case list_PushFront \<lparr>Key = k, Value = v\<rparr> c of
           (e, c') \<Rightarrow> Inr (c'\<lparr>itemMap := (itemMap c')(k \<mapsto> e)\<rparr>)))"

text \<open>\<open>remove\<close> takes an element pointer, which is nil when it comes from \<open>Back\<close> on an
  empty list.\<close>

definition remove :: "element option \<Rightarrow> ('k, 'v) Cache \<Rightarrow> panic + ('k, 'v) Cache" where
  "remove eo c =
     (case eo of
        None \<Rightarrow> Inl NilDereference
      | Some e \<Rightarrow>
          (case elements c e of
             None \<Rightarrow> Inl InvalidAddress
           | Some p \<Rightarrow>
               Inr (c\<lparr>itemMap := (itemMap c)(Key p := None),
                      lruList := list_Remove e (lruList c)\<rparr>)))"

definition Add :: "'k \<Rightarrow> 'v \<Rightarrow> ('k, 'v) Cache \<Rightarrow> panic + (error option \<times> ('k, 'v) Cache)" where
  "Add k v c =
     (case itemMap c k of
        Some e \<Rightarrow> Inr (Some ErrNotStored, c)
      | None \<Rightarrow> (case add k v c of Inl x \<Rightarrow> Inl x | Inr c' \<Rightarrow> Inr (None, c')))"

definition Set :: "'k \<Rightarrow> 'v \<Rightarrow> ('k, 'v) Cache \<Rightarrow> panic + (error option \<times> ('k, 'v) Cache)" where
  "Set k v c =
     (case itemMap c k of
        Some e \<Rightarrow>
          (case elements c e of
             None \<Rightarrow> Inl InvalidAddress
           | Some p \<Rightarrow>
               Inr (None,
                    c\<lparr>elements := (elements c)(e \<mapsto> p\<lparr>Value := v\<rparr>),
                      lruList := list_MoveToFront e (lruList c)\<rparr>))
      | None \<Rightarrow> (case add k v c of Inl x \<Rightarrow> Inl x | Inr c' \<Rightarrow> Inr (None, c')))"

definition Get :: "'k \<Rightarrow> ('k, 'v) Cache \<Rightarrow> panic + ((error + 'v) \<times> ('k, 'v) Cache)" where
  "Get k c =
     (case itemMap c k of
        Some e \<Rightarrow>
          (case elements c e of
             None \<Rightarrow> Inl InvalidAddress
           | Some p \<Rightarrow> Inr (Inr (Value p), c\<lparr>lruList := list_MoveToFront e (lruList c)\<rparr>))
      | None \<Rightarrow> Inr (Inl ErrNotFound, c))"

definition Remove :: "'k \<Rightarrow> ('k, 'v) Cache \<Rightarrow> panic + (error option \<times> ('k, 'v) Cache)" where
  "Remove k c =
     (case itemMap c k of
        Some e \<Rightarrow> (case remove (Some e) c of Inl x \<Rightarrow> Inl x | Inr c' \<Rightarrow> Inr (None, c'))
      | None \<Rightarrow> Inr (Some ErrNotFound, c))"

text \<open>
  The loop of \<open>SetSize\<close>:
  \<^verbatim>\<open>for i, e := n, Back(); i > 0; i, e = i-1, Back() { cache.remove(e) }\<close>
  with \<open>i\<close> and \<open>e\<close> as its arguments.
\<close>

function SetSize_loop ::
  "int \<Rightarrow> element option \<Rightarrow> ('k, 'v) Cache \<Rightarrow> panic + ('k, 'v) Cache" where
  "SetSize_loop i e c =
     (if i > 0 then
        (case remove e c of
           Inl x \<Rightarrow> Inl x
         | Inr c' \<Rightarrow> SetSize_loop (i - 1) (list_Back (lruList c')) c')
      else Inr c)"
  by pat_completeness auto
termination
  by (relation "measure (\<lambda>(i, e, c). nat i)") auto

definition SetSize :: "int \<Rightarrow> ('k, 'v) Cache \<Rightarrow> panic + ('k, 'v) Cache" where
  "SetSize n c =
     (if n \<le> 0 then Inr c
      else
        (let d = list_Len (lruList c) - n in
         case (if d > 0 then SetSize_loop d (list_Back (lruList c)) c else Inr c) of
           Inl x \<Rightarrow> Inl x
         | Inr c' \<Rightarrow> Inr (c'\<lparr>size_c := n\<rparr>)))"

declare SetSize_loop.simps [simp del]

subsection \<open>Sequences of calls\<close>

text \<open>
  A call of a public method with its arguments, and what the method returns to the caller.
\<close>

datatype ('k, 'v) call =
    CallGet 'k
  | CallSet 'k 'v
  | CallAdd 'k 'v
  | CallRemove 'k
  | CallLen
  | CallSize
  | CallSetSize int
  | CallPurge

datatype 'v reply =
    ReplyValue "error + 'v"
  | ReplyError "error option"
  | ReplyInt int
  | ReplyNone

fun perform :: "('k, 'v) call \<Rightarrow> ('k, 'v) Cache \<Rightarrow> panic + ('v reply \<times> ('k, 'v) Cache)" where
  "perform (CallGet k) c =
     (case Get k c of Inl x \<Rightarrow> Inl x | Inr (r, c') \<Rightarrow> Inr (ReplyValue r, c'))"
| "perform (CallSet k v) c =
     (case Set k v c of Inl x \<Rightarrow> Inl x | Inr (r, c') \<Rightarrow> Inr (ReplyError r, c'))"
| "perform (CallAdd k v) c =
     (case Add k v c of Inl x \<Rightarrow> Inl x | Inr (r, c') \<Rightarrow> Inr (ReplyError r, c'))"
| "perform (CallRemove k) c =
     (case Remove k c of Inl x \<Rightarrow> Inl x | Inr (r, c') \<Rightarrow> Inr (ReplyError r, c'))"
| "perform CallLen c = Inr (ReplyInt (Len c), c)"
| "perform CallSize c = Inr (ReplyInt (Size c), c)"
| "perform (CallSetSize n) c =
     (case SetSize n c of Inl x \<Rightarrow> Inl x | Inr c' \<Rightarrow> Inr (ReplyNone, c'))"
| "perform CallPurge c = Inr (ReplyNone, Purge c)"

text \<open>A sequence of calls stops at the first panic, as the program would.\<close>

fun run :: "('k, 'v) call list \<Rightarrow> ('k, 'v) Cache \<Rightarrow> panic + ('k, 'v) Cache" where
  "run [] c = Inr c"
| "run (a # as) c =
     (case perform a c of Inl x \<Rightarrow> Inl x | Inr (r, c') \<Rightarrow> run as c')"

text \<open>
  The touch of a call, in the words of the specification: a \<open>Get\<close> that finds its key, a
  \<open>Set\<close>, and an \<open>Add\<close> that stores its key touch that key; nothing else touches a key.
\<close>

fun touched :: "('k, 'v) call \<Rightarrow> 'v reply \<Rightarrow> 'k option" where
  "touched (CallGet k) (ReplyValue (Inr v)) = Some k"
| "touched (CallSet k v) (ReplyError None) = Some k"
| "touched (CallAdd k v) (ReplyError None) = Some k"
| "touched a r = None"

text \<open>
  \<open>run_timed\<close> is \<open>run\<close> with a clock: the calls are numbered from \<open>t + 1\<close>, and
  \<open>st k\<close> is the number of the last call that touched \<open>k\<close>.
\<close>

fun run_timed ::
  "('k, 'v) call list \<Rightarrow> nat \<Rightarrow> ('k \<Rightarrow> nat) \<Rightarrow> ('k, 'v) Cache
     \<Rightarrow> panic + (('k \<Rightarrow> nat) \<times> ('k, 'v) Cache)" where
  "run_timed [] t st c = Inr (st, c)"
| "run_timed (a # as) t st c =
     (case perform a c of
        Inl x \<Rightarrow> Inl x
      | Inr (r, c') \<Rightarrow>
          run_timed as (Suc t)
            (case touched a r of None \<Rightarrow> st | Some k \<Rightarrow> st(k := Suc t)) c')"

subsection \<open>What a caller can observe\<close>

text \<open>
  The entries of the cache from the front of the list to its back, each read through its
  element's payload.
\<close>

primrec entries_of ::
  "(element \<rightharpoonup> ('k, 'v) payload) \<Rightarrow> element list \<Rightarrow> ('k \<times> 'v) list" where
  "entries_of el [] = []"
| "entries_of el (e # l) =
     (case el e of
        None \<Rightarrow> entries_of el l
      | Some p \<Rightarrow> (Key p, Value p) # entries_of el l)"

definition entries :: "('k, 'v) Cache \<Rightarrow> ('k \<times> 'v) list" where
  "entries c = entries_of (elements c) (lruList c)"

definition keys :: "('k, 'v) Cache \<Rightarrow> 'k list" where
  "keys c = map fst (entries c)"

subsection \<open>The principle of the representation\<close>

text \<open>
  The source states its principle in a comment: the map and the list have the same number
  of entries, and every element of the list is the one the map holds for the element's key.
  \<open>cache_inv\<close> is that principle, with the bounds that the methods keep: the size is
  positive, the list is no longer than the size, no element is linked twice, and every
  linked element was allocated.
\<close>

definition cache_inv :: "('k, 'v) Cache \<Rightarrow> bool" where
  "cache_inv c \<longleftrightarrow>
     0 < size_c c \<and>
     list_Len (lruList c) \<le> size_c c \<and>
     distinct (lruList c) \<and>
     (\<forall>e \<in> set (lruList c). e < fresh c \<and>
        (\<exists>p. elements c e = Some p \<and> itemMap c (Key p) = Some e)) \<and>
     (\<forall>k e. itemMap c k = Some e \<longrightarrow>
        e \<in> set (lruList c) \<and> (\<exists>p. elements c e = Some p \<and> Key p = k))"

text \<open>
  The recency order against a clock: the keys from front to back carry strictly decreasing
  stamps, none later than the clock \<open>t\<close>.
\<close>

definition stamps_ok :: "nat \<Rightarrow> ('k \<Rightarrow> nat) \<Rightarrow> 'k list \<Rightarrow> bool" where
  "stamps_ok t st ks \<longleftrightarrow> sorted_wrt (\<lambda>a b. st b < st a) ks \<and> (\<forall>k \<in> set ks. st k \<le> t)"

subsection \<open>Lists and entries\<close>

lemma MoveToFront_in: "e \<in> set l \<Longrightarrow> list_MoveToFront e l = e # remove1 e l"
  by (cases l) (auto simp: list_MoveToFront_def)

lemma remove1_last: "distinct l \<Longrightarrow> l \<noteq> [] \<Longrightarrow> remove1 (last l) l = butlast l"
  by (induction l) auto

lemma entries_of_upd_notin: "e \<notin> set l \<Longrightarrow> entries_of (el(e \<mapsto> p)) l = entries_of el l"
  by (induction l) (auto split: option.splits)

lemma entries_of_map:
  "\<forall>e \<in> set l. el e \<noteq> None \<Longrightarrow>
   entries_of el l = map (\<lambda>e. (Key (the (el e)), Value (the (el e)))) l"
  by (induction l) auto

lemma inv_live: "cache_inv c \<Longrightarrow> e \<in> set (lruList c) \<Longrightarrow> elements c e \<noteq> None"
  by (auto simp: cache_inv_def)

lemma entries_rep:
  "cache_inv c \<Longrightarrow>
   entries c = map (\<lambda>e. (Key (the (elements c e)), Value (the (elements c e)))) (lruList c)"
  unfolding entries_def by (rule entries_of_map) (auto simp: cache_inv_def)

lemma length_entries: "cache_inv c \<Longrightarrow> length (entries c) = length (lruList c)"
  by (simp add: entries_rep)

lemma inv_key_inj:
  "cache_inv c \<Longrightarrow> e \<in> set (lruList c) \<Longrightarrow> e' \<in> set (lruList c) \<Longrightarrow>
   Key (the (elements c e)) = Key (the (elements c e')) \<Longrightarrow> e = e'"
  unfolding cache_inv_def by (metis option.sel)

lemma distinct_keys: "cache_inv c \<Longrightarrow> distinct (keys c)"
  unfolding keys_def
  apply (simp add: entries_rep distinct_map comp_def)
  apply (auto simp: inj_on_def dest: inv_key_inj)
  apply (simp add: cache_inv_def)
  done

lemma itemMap_keys: "cache_inv c \<Longrightarrow> (itemMap c k \<noteq> None) = (k \<in> set (keys c))"
  unfolding keys_def
  apply (simp add: entries_rep comp_def)
  apply (auto simp: cache_inv_def image_iff)
  apply (metis option.sel)
  done

lemma itemMap_value:
  "cache_inv c \<Longrightarrow> itemMap c k = Some e \<Longrightarrow> elements c e = Some p \<Longrightarrow>
   (k, Value p) \<in> set (entries c)"
  apply (simp add: entries_rep)
  apply (auto simp: cache_inv_def image_iff)
  apply (metis option.sel)
  done

lemma cache_invI:
  assumes "0 < size_c c" "int (length (lruList c)) \<le> size_c c" "distinct (lruList c)"
    and "\<And>e. e \<in> set (lruList c) \<Longrightarrow> e < fresh c"
    and "\<And>e. e \<in> set (lruList c) \<Longrightarrow> \<exists>p. elements c e = Some p \<and> itemMap c (Key p) = Some e"
    and "\<And>k e. itemMap c k = Some e \<Longrightarrow> e \<in> set (lruList c)"
    and "\<And>k e. itemMap c k = Some e \<Longrightarrow> \<exists>p. elements c e = Some p \<and> Key p = k"
  shows "cache_inv c"
  using assms unfolding cache_inv_def list_Len_def by blast

lemma inv_size: "cache_inv c \<Longrightarrow> 0 < size_c c"
  unfolding cache_inv_def by blast

lemma inv_len: "cache_inv c \<Longrightarrow> int (length (lruList c)) \<le> size_c c"
  unfolding cache_inv_def list_Len_def by blast

lemma inv_distinct: "cache_inv c \<Longrightarrow> distinct (lruList c)"
  unfolding cache_inv_def by blast

lemma inv_fresh: "cache_inv c \<Longrightarrow> e \<in> set (lruList c) \<Longrightarrow> e < fresh c"
  unfolding cache_inv_def by blast

lemma inv_elem:
  "cache_inv c \<Longrightarrow> e \<in> set (lruList c) \<Longrightarrow>
   \<exists>p. elements c e = Some p \<and> itemMap c (Key p) = Some e"
  unfolding cache_inv_def by blast

lemma inv_map_in: "cache_inv c \<Longrightarrow> itemMap c k = Some e \<Longrightarrow> e \<in> set (lruList c)"
  unfolding cache_inv_def by blast

lemma inv_map_key:
  "cache_inv c \<Longrightarrow> itemMap c k = Some e \<Longrightarrow> \<exists>p. elements c e = Some p \<and> Key p = k"
  unfolding cache_inv_def by blast

lemma last_notin_butlast: "distinct l \<Longrightarrow> l \<noteq> [] \<Longrightarrow> last l \<notin> set (butlast l)"
  by (induction l) (auto dest: in_set_butlastD)

lemma entries_of_butlast:
  "\<forall>e \<in> set l. el e \<noteq> None \<Longrightarrow> entries_of el (butlast l) = butlast (entries_of el l)"
  by (simp add: entries_of_map map_butlast in_set_butlastD)

lemma add_effect:
  assumes inv: "cache_inv c" and absent: "itemMap c k = None"
  shows "\<exists>c'. add k v c = Inr c' \<and> cache_inv c' \<and> size_c c' = size_c c \<and>
     entries c' = (k, v) # (if size_c c \<le> Len c then butlast (entries c) else entries c)"
proof (cases "size_c c \<le> Len c")
  case False
  let ?e = "fresh c"
  let ?c' = "c\<lparr>lruList := ?e # lruList c, elements := (elements c)(?e \<mapsto> \<lparr>Key = k, Value = v\<rparr>), fresh := Suc ?e, itemMap := (itemMap c)(k \<mapsto> ?e)\<rparr>"
  have a: "add k v c = Inr ?c'"
    using False by (simp add: add_def Len_def list_PushFront_def)
  have notin: "?e \<notin> set (lruList c)" using inv_fresh[OF inv] by blast
  have inv': "cache_inv ?c'"
  proof (rule cache_invI)
    show "0 < size_c ?c'" using inv_size[OF inv] by simp
    show "int (length (lruList ?c')) \<le> size_c ?c'"
      using False by (simp add: Len_def list_Len_def)
    show "distinct (lruList ?c')" using notin inv_distinct[OF inv] by simp
    show "e < fresh ?c'" if "e \<in> set (lruList ?c')" for e
      using that inv_fresh[OF inv, of e] by auto
    show "\<exists>p. elements ?c' e = Some p \<and> itemMap ?c' (Key p) = Some e"
      if "e \<in> set (lruList ?c')" for e
    proof (cases "e = ?e")
      case True
      then show ?thesis by simp
    next
      case False
      then have "e \<in> set (lruList c)" using that by simp
      from inv_elem[OF inv this] obtain p where "elements c e = Some p" "itemMap c (Key p) = Some e" by blast
      then show ?thesis using False absent by auto
    qed
    show "e \<in> set (lruList ?c')" if "itemMap ?c' k' = Some e" for k' e
      using that inv_map_in[OF inv, of k' e] by (auto split: if_splits)
    show "\<exists>p. elements ?c' e = Some p \<and> Key p = k'" if "itemMap ?c' k' = Some e" for k' e
    proof (cases "k' = k")
      case True
      then show ?thesis using that by simp
    next
      case False
      then have m: "itemMap c k' = Some e" using that by simp
      then have "e \<noteq> ?e" using inv_map_in[OF inv m] notin by blast
      then show ?thesis using inv_map_key[OF inv m] by simp
    qed
  qed
  have "entries ?c' = (k, v) # entries c"
    using notin by (simp add: entries_def entries_of_upd_notin)
  then show ?thesis using a inv' False by simp
next
  case True
  let ?l = "lruList c"
  from True inv_size[OF inv] have ne: "?l \<noteq> []" by (auto simp: Len_def list_Len_def)
  let ?e = "last ?l"
  have e_in: "?e \<in> set ?l" using ne by simp
  from inv_elem[OF inv e_in] obtain p where p: "elements c ?e = Some p" "itemMap c (Key p) = Some ?e"
    by blast
  have mtf: "list_MoveToFront ?e ?l = ?e # butlast ?l"
    using e_in ne inv_distinct[OF inv] by (simp add: MoveToFront_in remove1_last)
  let ?c' = "c\<lparr>itemMap := ((itemMap c)(Key p := None))(k \<mapsto> ?e),
               elements := (elements c)(?e \<mapsto> \<lparr>Key = k, Value = v\<rparr>),
               lruList := ?e # butlast ?l\<rparr>"
  have a: "add k v c = Inr ?c'"
    using True ne p mtf by (simp add: add_def Len_def list_Back_def)
  have notin: "?e \<notin> set (butlast ?l)"
    using last_notin_butlast[OF inv_distinct[OF inv] ne] .
  have inv': "cache_inv ?c'"
  proof (rule cache_invI)
    show "0 < size_c ?c'" using inv_size[OF inv] by simp
    show "int (length (lruList ?c')) \<le> size_c ?c'"
      using inv_len[OF inv] ne by simp
    show "distinct (lruList ?c')" using notin inv_distinct[OF inv] by (simp add: distinct_butlast)
    show "e < fresh ?c'" if "e \<in> set (lruList ?c')" for e
      using that inv_fresh[OF inv, of e] e_in by (auto dest: in_set_butlastD)
    show "\<exists>q. elements ?c' e = Some q \<and> itemMap ?c' (Key q) = Some e"
      if "e \<in> set (lruList ?c')" for e
    proof (cases "e = ?e")
      case True
      then show ?thesis by simp
    next
      case False
      then have ein: "e \<in> set ?l" using that by (auto dest: in_set_butlastD)
      from inv_elem[OF inv this] obtain q where q: "elements c e = Some q" "itemMap c (Key q) = Some e" by blast
      have "Key q \<noteq> k" using q absent by auto
      moreover have "Key q \<noteq> Key p" using q p False by auto
      ultimately show ?thesis using False q by simp
    qed
    show "e \<in> set (lruList ?c')" if "itemMap ?c' k' = Some e" for k' e
    proof (cases "k' = k")
      case True
      then show ?thesis using that by simp
    next
      case False
      then have m: "itemMap c k' = Some e" "k' \<noteq> Key p" using that by (auto split: if_splits)
      from inv_map_key[OF inv m(1)] m(2) p have "e \<noteq> ?e" by auto
      moreover have "e \<in> set ?l" using inv_map_in[OF inv m(1)] .
      ultimately have "e \<in> set (butlast ?l)" using ne
        by (metis append_butlast_last_id in_set_conv_decomp_last rotate1.simps(2) set_ConsD set_rotate1)
      then show ?thesis by simp
    qed
    show "\<exists>q. elements ?c' e = Some q \<and> Key q = k'" if "itemMap ?c' k' = Some e" for k' e
    proof (cases "k' = k")
      case True
      then show ?thesis using that by simp
    next
      case False
      then have m: "itemMap c k' = Some e" "k' \<noteq> Key p" using that by (auto split: if_splits)
      from inv_map_key[OF inv m(1)] m(2) p have "e \<noteq> ?e" by auto
      then show ?thesis using inv_map_key[OF inv m(1)] by simp
    qed
  qed
  have live: "\<forall>e \<in> set ?l. elements c e \<noteq> None" using inv_live[OF inv] by blast
  have "entries_of ((elements c)(?e \<mapsto> \<lparr>Key = k, Value = v\<rparr>)) (butlast ?l)
          = entries_of (elements c) (butlast ?l)"
    using notin by (rule entries_of_upd_notin)
  then have "entries ?c' = (k, v) # butlast (entries c)"
    using live by (simp add: entries_def entries_of_butlast)
  then show ?thesis using a inv' True by simp
qed

subsection \<open>The effect of each method on a cache that satisfies the principle\<close>

lemma cache_inv_relist:
  assumes inv: "cache_inv c" and d: "distinct l'" and s: "set l' = set (lruList c)"
  shows "cache_inv (c\<lparr>lruList := l'\<rparr>)"
proof -
  have "length l' = length (lruList c)"
    using d s inv_distinct[OF inv] by (metis distinct_card)
  then show ?thesis
    using inv d s unfolding cache_inv_def list_Len_def by simp
qed

lemma cache_inv_setval:
  assumes inv: "cache_inv c" and p: "elements c e = Some p"
  shows "cache_inv (c\<lparr>elements := (elements c)(e \<mapsto> p\<lparr>Value := v\<rparr>)\<rparr>)"
proof (rule cache_invI)
  let ?c' = "c\<lparr>elements := (elements c)(e \<mapsto> p\<lparr>Value := v\<rparr>)\<rparr>"
  show "0 < size_c ?c'" using inv_size[OF inv] by simp
  show "int (length (lruList ?c')) \<le> size_c ?c'" using inv_len[OF inv] by simp
  show "distinct (lruList ?c')" using inv_distinct[OF inv] by simp
  show "x < fresh ?c'" if "x \<in> set (lruList ?c')" for x
    using that inv_fresh[OF inv, of x] by simp
  show "\<exists>q. elements ?c' x = Some q \<and> itemMap ?c' (Key q) = Some x"
    if "x \<in> set (lruList ?c')" for x
    using that inv_elem[OF inv, of x] p by (cases "x = e") auto
  show "x \<in> set (lruList ?c')" if "itemMap ?c' k = Some x" for k x
    using that inv_map_in[OF inv, of k x] by simp
  show "\<exists>q. elements ?c' x = Some q \<and> Key q = k" if "itemMap ?c' k = Some x" for k x
    using that inv_map_key[OF inv, of k x] p by (cases "x = e") auto
qed

lemma entries_remove1:
  assumes inv: "cache_inv c" and m: "itemMap c k = Some e"
  shows "entries_of (elements c) (remove1 e (lruList c)) = filter (\<lambda>x. fst x \<noteq> k) (entries c)"
proof -
  let ?f = "\<lambda>e. (Key (the (elements c e)), Value (the (elements c e)))"
  let ?l = "lruList c"
  have d: "distinct ?l" using inv_distinct[OF inv] .
  have r: "remove1 e ?l = filter (\<lambda>x. e \<noteq> x) ?l"
    using d by (simp add: distinct_remove1_removeAll removeAll_filter_not_eq)
  have live: "\<forall>x \<in> set (remove1 e ?l). elements c x \<noteq> None"
    using inv_live[OF inv] by (auto dest: notin_set_remove1)
  have key: "(fst (?f x) \<noteq> k) = (e \<noteq> x)" if "x \<in> set ?l" for x
  proof -
    from inv_elem[OF inv that] obtain q where q: "elements c x = Some q" "itemMap c (Key q) = Some x"
      by blast
    from inv_map_key[OF inv m] obtain p where p: "elements c e = Some p" "Key p = k" by blast
    show ?thesis using q p m by auto
  qed
  have fc: "filter (\<lambda>x. e \<noteq> x) ?l = filter (\<lambda>x. fst (?f x) \<noteq> k) ?l"
    by (rule filter_cong) (use key in auto)
  have "entries_of (elements c) (remove1 e ?l) = map ?f (filter (\<lambda>x. e \<noteq> x) ?l)"
    using entries_of_map[OF live] r by simp
  also have "\<dots> = filter (\<lambda>x. fst x \<noteq> k) (map ?f ?l)"
    unfolding filter_map comp_def fc by simp
  finally show ?thesis by (simp add: entries_rep[OF inv])
qed

lemma Get_hit:
  assumes inv: "cache_inv c" and m: "itemMap c k = Some e"
  shows "\<exists>v c'. Get k c = Inr (Inr v, c') \<and> (k, v) \<in> set (entries c) \<and> cache_inv c' \<and>
     size_c c' = size_c c \<and> entries c' = (k, v) # filter (\<lambda>x. fst x \<noteq> k) (entries c)"
proof -
  let ?l = "lruList c"
  from inv_map_key[OF inv m] obtain p where p: "elements c e = Some p" "Key p = k" by blast
  have e_in: "e \<in> set ?l" using inv_map_in[OF inv m] .
  let ?c' = "c\<lparr>lruList := e # remove1 e ?l\<rparr>"
  have g: "Get k c = Inr (Inr (Value p), ?c')"
    using m p e_in by (simp add: Get_def MoveToFront_in)
  have inv': "cache_inv ?c'"
    using e_in inv_distinct[OF inv] by (intro cache_inv_relist[OF inv]) auto
  have "entries ?c' = (k, Value p) # filter (\<lambda>x. fst x \<noteq> k) (entries c)"
    using p entries_remove1[OF inv m] by (simp add: entries_def)
  then show ?thesis using g inv' itemMap_value[OF inv m p(1)] by simp
qed

lemma Get_miss: "itemMap c k = None \<Longrightarrow> Get k c = Inr (Inl ErrNotFound, c)"
  by (simp add: Get_def)

lemma Set_hit:
  assumes inv: "cache_inv c" and m: "itemMap c k = Some e"
  shows "\<exists>c'. Set k v c = Inr (None, c') \<and> cache_inv c' \<and>
     size_c c' = size_c c \<and> entries c' = (k, v) # filter (\<lambda>x. fst x \<noteq> k) (entries c)"
proof -
  let ?l = "lruList c"
  from inv_map_key[OF inv m] obtain p where p: "elements c e = Some p" "Key p = k" by blast
  have e_in: "e \<in> set ?l" using inv_map_in[OF inv m] .
  let ?c1 = "c\<lparr>elements := (elements c)(e \<mapsto> p\<lparr>Value := v\<rparr>)\<rparr>"
  let ?c' = "?c1\<lparr>lruList := e # remove1 e ?l\<rparr>"
  have g: "Set k v c = Inr (None, ?c')"
    using m p e_in by (simp add: Set_def MoveToFront_in)
  have inv1: "cache_inv ?c1" using cache_inv_setval[OF inv p(1)] .
  have inv': "cache_inv ?c'"
    using e_in inv_distinct[OF inv] by (intro cache_inv_relist[OF inv1]) auto
  have notin: "e \<notin> set (remove1 e ?l)" using inv_distinct[OF inv] by simp
  have "entries_of ((elements c)(e \<mapsto> p\<lparr>Value := v\<rparr>)) (remove1 e ?l)
          = entries_of (elements c) (remove1 e ?l)"
    using notin by (rule entries_of_upd_notin)
  then have "entries ?c' = (k, v) # filter (\<lambda>x. fst x \<noteq> k) (entries c)"
    using p entries_remove1[OF inv m] by (simp add: entries_def)
  then show ?thesis using g inv' by simp
qed

lemma remove_effect:
  assumes inv: "cache_inv c" and e_in: "e \<in> set (lruList c)"
  shows "\<exists>p. elements c e = Some p \<and> itemMap c (Key p) = Some e \<and>
     remove (Some e) c =
       Inr (c\<lparr>itemMap := (itemMap c)(Key p := None), lruList := remove1 e (lruList c)\<rparr>) \<and>
     cache_inv (c\<lparr>itemMap := (itemMap c)(Key p := None), lruList := remove1 e (lruList c)\<rparr>)"
proof -
  let ?l = "lruList c"
  from inv_elem[OF inv e_in] obtain p where p: "elements c e = Some p" "itemMap c (Key p) = Some e"
    by blast
  let ?c' = "c\<lparr>itemMap := (itemMap c)(Key p := None), lruList := remove1 e ?l\<rparr>"
  have r: "remove (Some e) c = Inr ?c'"
    using p e_in by (simp add: remove_def list_Remove_def)
  have d: "distinct ?l" using inv_distinct[OF inv] .
  have inv': "cache_inv ?c'"
  proof (rule cache_invI)
    show "0 < size_c ?c'" using inv_size[OF inv] by simp
    show "int (length (lruList ?c')) \<le> size_c ?c'"
      using inv_len[OF inv] e_in by (simp add: length_remove1)
    show "distinct (lruList ?c')" using d by simp
    show "x < fresh ?c'" if "x \<in> set (lruList ?c')" for x
      using that inv_fresh[OF inv, of x] d by simp
    show "\<exists>q. elements ?c' x = Some q \<and> itemMap ?c' (Key q) = Some x"
      if "x \<in> set (lruList ?c')" for x
    proof -
      from that d have x: "x \<in> set ?l" "x \<noteq> e" by auto
      from inv_elem[OF inv x(1)] obtain q where q: "elements c x = Some q" "itemMap c (Key q) = Some x"
        by blast
      have "Key q \<noteq> Key p" using q p x(2) by auto
      then show ?thesis using q by simp
    qed
    show "x \<in> set (lruList ?c')" if "itemMap ?c' k = Some x" for k x
    proof -
      from that have m: "itemMap c k = Some x" "k \<noteq> Key p" by (auto split: if_splits)
      from inv_map_key[OF inv m(1)] m(2) p have "x \<noteq> e" by auto
      then show ?thesis using inv_map_in[OF inv m(1)] d by simp
    qed
    show "\<exists>q. elements ?c' x = Some q \<and> Key q = k" if "itemMap ?c' k = Some x" for k x
    proof -
      from that have m: "itemMap c k = Some x" by (auto split: if_splits)
      then show ?thesis using inv_map_key[OF inv m] by simp
    qed
  qed
  show ?thesis using p r inv' by blast
qed

lemma Remove_hit:
  assumes inv: "cache_inv c" and m: "itemMap c k = Some e"
  shows "\<exists>c'. Remove k c = Inr (None, c') \<and> cache_inv c' \<and> size_c c' = size_c c \<and>
     itemMap c' = (itemMap c)(k := None) \<and>
     entries c' = filter (\<lambda>x. fst x \<noteq> k) (entries c)"
proof -
  have e_in: "e \<in> set (lruList c)" using inv_map_in[OF inv m] .
  from inv_map_key[OF inv m] obtain p where p: "elements c e = Some p" "Key p = k" by blast
  from remove_effect[OF inv e_in] p
  have r: "remove (Some e) c =
       Inr (c\<lparr>itemMap := (itemMap c)(k := None), lruList := remove1 e (lruList c)\<rparr>)"
    and inv': "cache_inv (c\<lparr>itemMap := (itemMap c)(k := None), lruList := remove1 e (lruList c)\<rparr>)"
    by auto
  show ?thesis
    using m r inv' entries_remove1[OF inv m] by (simp add: Remove_def entries_def)
qed

lemma Remove_miss: "itemMap c k = None \<Longrightarrow> Remove k c = Inr (Some ErrNotFound, c)"
  by (simp add: Remove_def)

lemma remove_Back:
  assumes inv: "cache_inv c" and ne: "lruList c \<noteq> []"
  shows "\<exists>c'. remove (list_Back (lruList c)) c = Inr c' \<and> cache_inv c' \<and>
     size_c c' = size_c c \<and> lruList c' = butlast (lruList c) \<and>
     entries c' = butlast (entries c)"
proof -
  let ?l = "lruList c"
  have e_in: "last ?l \<in> set ?l" using ne by simp
  have live: "\<forall>e \<in> set ?l. elements c e \<noteq> None" using inv_live[OF inv] by blast
  from remove_effect[OF inv e_in] obtain p where
    p: "elements c (last ?l) = Some p" and
    r: "remove (Some (last ?l)) c =
       Inr (c\<lparr>itemMap := (itemMap c)(Key p := None), lruList := remove1 (last ?l) ?l\<rparr>)"
    and inv': "cache_inv (c\<lparr>itemMap := (itemMap c)(Key p := None), lruList := remove1 (last ?l) ?l\<rparr>)"
    by blast
  show ?thesis
    using r inv' ne live remove1_last[OF inv_distinct[OF inv] ne]
    by (simp add: list_Back_def entries_def entries_of_butlast)
qed

lemma SetSize_loop_effect:
  assumes "cache_inv c" "0 \<le> i" "i \<le> int (length (lruList c))"
  shows "\<exists>c'. SetSize_loop i (list_Back (lruList c)) c = Inr c' \<and> cache_inv c' \<and>
     size_c c' = size_c c \<and>
     entries c' = take (length (entries c) - nat i) (entries c)"
  using assms
proof (induction "nat i" arbitrary: i c)
  case 0
  then have "i = 0" by simp
  then show ?case using "0.prems" by (simp add: SetSize_loop.simps)
next
  case (Suc m)
  then have ipos: "0 < i" and m: "m = nat (i - 1)" by auto
  from Suc.prems ipos have ne: "lruList c \<noteq> []" by auto
  from remove_Back[OF Suc.prems(1) ne] obtain c1 where
    c1: "remove (list_Back (lruList c)) c = Inr c1" "cache_inv c1" "size_c c1 = size_c c"
        "lruList c1 = butlast (lruList c)" "entries c1 = butlast (entries c)"
    by blast
  have "i - 1 \<le> int (length (lruList c1))" using Suc.prems c1(4) ne by simp
  from Suc.hyps(1)[OF m c1(2) _ this] ipos obtain c' where
    c': "SetSize_loop (i - 1) (list_Back (lruList c1)) c1 = Inr c'" "cache_inv c'"
        "size_c c' = size_c c1"
        "entries c' = take (length (entries c1) - nat (i - 1)) (entries c1)"
    by auto
  have len: "length (entries c) = length (lruList c)" using length_entries[OF Suc.prems(1)] .
  have "length (entries c1) - nat (i - 1) = length (entries c) - nat i"
    using c1(5) ipos by (simp add: nat_diff_distrib)
  moreover have "length (entries c) - nat i < length (entries c)"
    using ipos ne len by simp
  ultimately have "entries c' = take (length (entries c) - nat i) (entries c)"
    using c'(4) c1(5) by (simp add: take_butlast)
  moreover have "SetSize_loop i (list_Back (lruList c)) c = Inr c'"
    using ipos c1(1) c'(1) by (subst SetSize_loop.simps) simp
  ultimately show ?case using c'(2,3) c1(3) by simp
qed

lemma cache_inv_resize:
  "cache_inv c \<Longrightarrow> 0 < n \<Longrightarrow> int (length (lruList c)) \<le> n \<Longrightarrow> cache_inv (c\<lparr>size_c := n\<rparr>)"
  unfolding cache_inv_def list_Len_def by simp

lemma SetSize_effect:
  assumes inv: "cache_inv c" and n: "0 < n"
  shows "\<exists>c'. SetSize n c = Inr c' \<and> cache_inv c' \<and> size_c c' = n \<and>
     entries c' = take (nat n) (entries c)"
proof (cases "list_Len (lruList c) - n > 0")
  case False
  then have le: "int (length (lruList c)) \<le> n" by (simp add: list_Len_def)
  have s: "SetSize n c = Inr (c\<lparr>size_c := n\<rparr>)"
    using n False by (simp add: SetSize_def)
  have "entries (c\<lparr>size_c := n\<rparr>) = take (nat n) (entries c)"
    using le length_entries[OF inv] by (simp add: entries_def)
  then show ?thesis using s cache_inv_resize[OF inv n le] by simp
next
  case True
  let ?d = "list_Len (lruList c) - n"
  have d: "0 \<le> ?d" "?d \<le> int (length (lruList c))" using True n by (simp_all add: list_Len_def)
  from SetSize_loop_effect[OF inv d] obtain c1 where
    c1: "SetSize_loop ?d (list_Back (lruList c)) c = Inr c1" "cache_inv c1"
        "size_c c1 = size_c c" "entries c1 = take (length (entries c) - nat ?d) (entries c)"
    by blast
  have s: "SetSize n c = Inr (c1\<lparr>size_c := n\<rparr>)"
    using n True c1(1) by (simp add: SetSize_def)
  have len: "length (entries c) = length (lruList c)" using length_entries[OF inv] .
  have eq: "length (entries c) - nat ?d = nat n"
    using True n len by (simp add: list_Len_def)
  have "length (lruList c1) = length (entries c1)" using length_entries[OF c1(2)] by simp
  also have "\<dots> \<le> nat n" using c1(4) eq by simp
  finally have le: "int (length (lruList c1)) \<le> n" using n by simp
  have "entries (c1\<lparr>size_c := n\<rparr>) = take (nat n) (entries c)"
    using c1(4) eq by (simp add: entries_def)
  then show ?thesis using s cache_inv_resize[OF c1(2) n le] by simp
qed

lemma SetSize_nonpos: "n \<le> 0 \<Longrightarrow> SetSize n c = Inr c"
  by (simp add: SetSize_def)

lemma Purge_inv: "cache_inv c \<Longrightarrow> cache_inv (Purge c)"
  unfolding cache_inv_def Purge_def list_Len_def by simp

lemma New_inv: "New n = Inr c \<Longrightarrow> cache_inv c"
  unfolding cache_inv_def New_def list_Len_def by (auto split: if_splits)

lemma Set_total:
  assumes inv: "cache_inv c"
  shows "\<exists>c'. Set k v c = Inr (None, c') \<and> cache_inv c' \<and> size_c c' = size_c c"
proof (cases "itemMap c k")
  case None
  from add_effect[OF inv None, of v] show ?thesis using None by (auto simp: Set_def)
next
  case (Some e)
  from Set_hit[OF inv Some, of v] show ?thesis by blast
qed

lemma Add_total:
  assumes inv: "cache_inv c"
  shows "\<exists>r c'. Add k v c = Inr (r, c') \<and> cache_inv c' \<and> size_c c' = size_c c"
proof (cases "itemMap c k")
  case None
  from add_effect[OF inv None, of v] show ?thesis using None by (auto simp: Add_def)
next
  case (Some e)
  then show ?thesis using inv by (simp add: Add_def)
qed

lemma Get_total:
  assumes inv: "cache_inv c"
  shows "\<exists>r c'. Get k c = Inr (r, c') \<and> cache_inv c' \<and> size_c c' = size_c c"
proof (cases "itemMap c k")
  case None
  then show ?thesis using inv by (simp add: Get_miss)
next
  case (Some e)
  from Get_hit[OF inv Some] show ?thesis by blast
qed

lemma Remove_total:
  assumes inv: "cache_inv c"
  shows "\<exists>r c'. Remove k c = Inr (r, c') \<and> cache_inv c' \<and> size_c c' = size_c c"
proof (cases "itemMap c k")
  case None
  then show ?thesis using inv by (simp add: Remove_miss)
next
  case (Some e)
  from Remove_hit[OF inv Some] show ?thesis by blast
qed

lemma SetSize_total:
  assumes inv: "cache_inv c"
  shows "\<exists>c'. SetSize n c = Inr c' \<and> cache_inv c'"
proof (cases "n \<le> 0")
  case True
  then show ?thesis using inv by (simp add: SetSize_nonpos)
next
  case False
  then have "0 < n" by simp
  from SetSize_effect[OF inv this] show ?thesis by blast
qed

lemma perform_inv:
  assumes inv: "cache_inv c"
  shows "\<exists>r c'. perform a c = Inr (r, c') \<and> cache_inv c'"
proof (cases a)
  case (CallGet k)
  from Get_total[OF inv, of k] show ?thesis using CallGet by auto
next
  case (CallSet k v)
  from Set_total[OF inv, of k v] show ?thesis using CallSet by auto
next
  case (CallAdd k v)
  from Add_total[OF inv, of k v] show ?thesis using CallAdd by auto
next
  case (CallRemove k)
  from Remove_total[OF inv, of k] show ?thesis using CallRemove by auto
next
  case CallLen
  then show ?thesis using inv by simp
next
  case CallSize
  then show ?thesis using inv by simp
next
  case (CallSetSize n)
  from SetSize_total[OF inv, of n] show ?thesis using CallSetSize by auto
next
  case CallPurge
  then show ?thesis using Purge_inv[OF inv] by simp
qed

lemma run_inv: "cache_inv c \<Longrightarrow> \<exists>c'. run cs c = Inr c' \<and> cache_inv c'"
proof (induction cs arbitrary: c)
  case Nil
  then show ?case by simp
next
  case (Cons a cs)
  from perform_inv[OF Cons.prems, of a] obtain r c1 where
    c1: "perform a c = Inr (r, c1)" "cache_inv c1" by blast
  from Cons.IH[OF c1(2)] show ?case using c1(1) by simp
qed

lemma reached_inv: "New n = Inr c0 \<Longrightarrow> run cs c0 = Inr c \<Longrightarrow> cache_inv c"
  using run_inv[OF New_inv, of n c0 cs] by simp

subsection \<open>The recency order follows the touches\<close>

lemma stamps_mono: "stamps_ok t st ks \<Longrightarrow> stamps_ok (Suc t) st ks"
  unfolding stamps_ok_def by auto

lemma stamps_filter: "stamps_ok t st ks \<Longrightarrow> stamps_ok t st (filter P ks)"
  unfolding stamps_ok_def by (auto intro: sorted_wrt_filter)

lemma stamps_take: "stamps_ok t st ks \<Longrightarrow> stamps_ok t st (take n ks)"
  unfolding stamps_ok_def by (auto intro: sorted_wrt_take dest: in_set_takeD)

lemma stamps_butlast: "stamps_ok t st ks \<Longrightarrow> stamps_ok t st (butlast ks)"
  unfolding butlast_conv_take by (rule stamps_take)

lemma stamps_touch:
  "stamps_ok t st ks \<Longrightarrow> k \<notin> set ks \<Longrightarrow> stamps_ok (Suc t) (st(k := Suc t)) (k # ks)"
proof -
  assume ok: "stamps_ok t st ks" and notin: "k \<notin> set ks"
  have "sorted_wrt (\<lambda>a b. st b < st a) ks" using ok by (simp add: stamps_ok_def)
  then have "sorted_wrt (\<lambda>a b. (st(k := Suc t)) b < (st(k := Suc t)) a) ks"
    by (rule sorted_wrt_mono_rel[rotated]) (use notin in auto)
  moreover have "\<forall>y \<in> set ks. (st(k := Suc t)) y < (st(k := Suc t)) k"
    using ok notin by (auto simp: stamps_ok_def less_Suc_eq_le)
  moreover have "\<forall>y \<in> set (k # ks). (st(k := Suc t)) y \<le> Suc t"
    using ok by (auto simp: stamps_ok_def le_Suc_eq)
  ultimately show ?thesis unfolding stamps_ok_def by simp
qed

lemma keys_filter: "map fst (filter (\<lambda>x. fst x \<noteq> k) es) = filter (\<lambda>x. x \<noteq> k) (map fst es)"
  by (induction es) auto

lemma perform_stamps:
  assumes inv: "cache_inv c" and ok: "stamps_ok t st (keys c)"
    and p: "perform a c = Inr (r, c')"
  shows "cache_inv c' \<and>
     stamps_ok (Suc t) (case touched a r of None \<Rightarrow> st | Some k \<Rightarrow> st(k := Suc t)) (keys c')"
proof (cases a)
  case (CallGet k)
  show ?thesis
  proof (cases "itemMap c k")
    case None
    then show ?thesis using p CallGet inv stamps_mono[OF ok] by (auto simp: Get_miss)
  next
    case (Some e)
    from Get_hit[OF inv Some] p CallGet obtain v where
      "r = ReplyValue (Inr v)" "cache_inv c'" "keys c' = k # filter (\<lambda>x. x \<noteq> k) (keys c)"
      by (auto simp: keys_def keys_filter)
    then show ?thesis using CallGet stamps_touch[OF stamps_filter[OF ok], of k "\<lambda>x. x \<noteq> k"] by simp
  qed
next
  case (CallSet k v)
  show ?thesis
  proof (cases "itemMap c k")
    case None
    then have notin: "k \<notin> set (keys c)" using itemMap_keys[OF inv, of k] by simp
    from add_effect[OF inv None, of v] p CallSet None have
      r: "r = ReplyError None" "cache_inv c'"
      and "keys c' = k # (if size_c c \<le> Len c then butlast (keys c) else keys c)"
      by (auto simp: keys_def Set_def map_butlast)
    then show ?thesis
      using CallSet notin stamps_touch[OF ok, of k] stamps_touch[OF stamps_butlast[OF ok], of k]
      by (auto dest: in_set_butlastD)
  next
    case (Some e)
    from Set_hit[OF inv Some, of v] p CallSet have
      "r = ReplyError None" "cache_inv c'" "keys c' = k # filter (\<lambda>x. x \<noteq> k) (keys c)"
      by (auto simp: keys_def keys_filter)
    then show ?thesis using CallSet stamps_touch[OF stamps_filter[OF ok], of k "\<lambda>x. x \<noteq> k"] by simp
  qed
next
  case (CallAdd k v)
  show ?thesis
  proof (cases "itemMap c k")
    case None
    then have notin: "k \<notin> set (keys c)" using itemMap_keys[OF inv, of k] by simp
    from add_effect[OF inv None, of v] p CallAdd None have
      r: "r = ReplyError None" "cache_inv c'"
      and "keys c' = k # (if size_c c \<le> Len c then butlast (keys c) else keys c)"
      by (auto simp: keys_def Add_def map_butlast)
    then show ?thesis
      using CallAdd notin stamps_touch[OF ok, of k] stamps_touch[OF stamps_butlast[OF ok], of k]
      by (auto dest: in_set_butlastD)
  next
    case (Some e)
    then show ?thesis using p CallAdd inv stamps_mono[OF ok] by (auto simp: Add_def)
  qed
next
  case (CallRemove k)
  show ?thesis
  proof (cases "itemMap c k")
    case None
    then show ?thesis using p CallRemove inv stamps_mono[OF ok] by (auto simp: Remove_miss)
  next
    case (Some e)
    from Remove_hit[OF inv Some] p CallRemove have
      "cache_inv c'" "keys c' = filter (\<lambda>x. x \<noteq> k) (keys c)"
      by (auto simp: keys_def keys_filter)
    then show ?thesis using CallRemove stamps_mono[OF stamps_filter[OF ok]] by simp
  qed
next
  case CallLen
  then show ?thesis using p inv stamps_mono[OF ok] by auto
next
  case CallSize
  then show ?thesis using p inv stamps_mono[OF ok] by auto
next
  case (CallSetSize n)
  show ?thesis
  proof (cases "n \<le> 0")
    case True
    then show ?thesis using p CallSetSize inv stamps_mono[OF ok] by (auto simp: SetSize_nonpos)
  next
    case False
    then have "0 < n" by simp
    from SetSize_effect[OF inv this] p CallSetSize have
      "cache_inv c'" "keys c' = take (nat n) (keys c)"
      by (auto simp: keys_def take_map)
    then show ?thesis using CallSetSize stamps_mono[OF stamps_take[OF ok]] by simp
  qed
next
  case CallPurge
  then have "c' = Purge c" "touched a r = None" using p by auto
  moreover have "keys (Purge c) = []" by (simp add: keys_def entries_def Purge_def)
  ultimately show ?thesis using Purge_inv[OF inv] by (simp add: stamps_ok_def)
qed

lemma run_timed_stamps:
  "cache_inv c \<Longrightarrow> stamps_ok t st (keys c) \<Longrightarrow> run_timed cs t st c = Inr (st', c') \<Longrightarrow>
   cache_inv c' \<and> stamps_ok (t + length cs) st' (keys c')"
proof (induction cs arbitrary: c t st)
  case Nil
  then show ?case by simp
next
  case (Cons a cs)
  from Cons.prems(3) obtain r c1 where
    p: "perform a c = Inr (r, c1)"
    and rest: "run_timed cs (Suc t) (case touched a r of None \<Rightarrow> st | Some k \<Rightarrow> st(k := Suc t)) c1
               = Inr (st', c')"
    by (auto split: sum.splits)
  from perform_stamps[OF Cons.prems(1,2) p] Cons.IH[OF _ _ rest] show ?case by simp
qed

text \<open>
  The clock only observes: \<open>run_timed\<close> reaches a cache exactly when \<open>run\<close> does.
\<close>

lemma run_timed_run: "run_timed cs t st c = Inr (st', c') \<Longrightarrow> run cs c = Inr c'"
  by (induction cs arbitrary: c t st) (auto split: sum.splits)

lemma run_run_timed: "run cs c = Inr c' \<Longrightarrow> \<exists>st'. run_timed cs t st c = Inr (st', c')"
  by (induction cs arbitrary: c t st) (auto split: sum.splits)

subsection \<open>Facts about reachable caches\<close>

lemma card_index:
  assumes inv: "cache_inv c"
  shows "card (dom (itemMap c)) = length (lruList c)"
proof -
  have "dom (itemMap c) = set (keys c)"
    using itemMap_keys[OF inv] by (auto simp: dom_def)
  then have "card (dom (itemMap c)) = length (keys c)"
    using distinct_keys[OF inv] by (simp add: distinct_card)
  then show ?thesis using length_entries[OF inv] by (simp add: keys_def)
qed

lemma sorted_hd_last:
  assumes "sorted_wrt (\<lambda>a b. st b < st a) ks" and "k \<in> set ks"
  shows "st k \<le> st (hd ks) \<and> st (last ks) \<le> (st k :: nat)"
proof -
  from assms(2) obtain i where i: "i < length ks" "ks ! i = k" by (auto simp: in_set_conv_nth)
  then have ne: "ks \<noteq> []" by auto
  have "st k \<le> st (hd ks)"
  proof (cases "i = 0")
    case True
    then show ?thesis using i ne by (simp add: hd_conv_nth)
  next
    case False
    then have "st (ks ! i) < st (ks ! 0)"
      using assms(1) i(1) by (simp add: sorted_wrt_iff_nth_less)
    then show ?thesis using i ne by (simp add: hd_conv_nth)
  qed
  moreover have "st (last ks) \<le> st k"
  proof (cases "i = length ks - 1")
    case True
    then show ?thesis using i ne by (simp add: last_conv_nth)
  next
    case False
    then have "st (ks ! (length ks - 1)) < st (ks ! i)"
      using assms(1) i(1) by (simp add: sorted_wrt_iff_nth_less)
    then show ?thesis using i ne by (simp add: last_conv_nth)
  qed
  ultimately show ?thesis by simp
qed

lemma reached_timed:
  assumes "New n = Inr c0" and "run_timed cs 0 (\<lambda>_. 0) c0 = Inr (st, c)"
  shows "cache_inv c \<and> stamps_ok (length cs) st (keys c)"
proof -
  have "keys c0 = []" using assms(1) by (auto simp: New_def keys_def entries_def split: if_splits)
  then have "stamps_ok 0 (\<lambda>_. 0) (keys c0)" by (simp add: stamps_ok_def)
  from run_timed_stamps[OF New_inv[OF assms(1)] this assms(2)] show ?thesis by simp
qed

lemma in_butlast_distinct:
  "distinct ks \<Longrightarrow> ks \<noteq> [] \<Longrightarrow> (x \<in> set (butlast ks)) = (x \<in> set ks \<and> x \<noteq> last ks)"
  by (induction ks) auto

lemma eq_key_value:
  "distinct (map fst es) \<Longrightarrow> (k, v) \<in> set es \<Longrightarrow> (k, v') \<in> set es \<Longrightarrow> v = v'"
  by (meson eq_key_imp_eq_value)

lemma Get_head:
  assumes inv: "cache_inv c" and hd: "entries c = (k, v) # es"
  shows "\<exists>c'. Get k c = Inr (Inr v, c')"
proof -
  have "k \<in> set (keys c)" using hd by (simp add: keys_def)
  then obtain e where e: "itemMap c k = Some e" using itemMap_keys[OF inv, of k] by auto
  from Get_hit[OF inv e] obtain v' c' where
    g: "Get k c = Inr (Inr v', c')" "(k, v') \<in> set (entries c)" by blast
  have "(k, v) \<in> set (entries c)" using hd by simp
  from eq_key_value[OF _ g(2) this] distinct_keys[OF inv] have "v' = v" by (simp add: keys_def)
  then show ?thesis using g(1) by blast
qed


text \<open>
  What one call does to the keys: a call that touches a key leaves that key at the front,
  before keys that were there already; a call that touches nothing brings no key in.
\<close>

lemma perform_keys:
  assumes inv: "cache_inv c" and p: "perform a c = Inr (r, c')"
  shows "case touched a r of
           Some k \<Rightarrow> \<exists>ks. keys c' = k # ks \<and> set ks \<subseteq> set (keys c) - {k}
         | None \<Rightarrow> set (keys c') \<subseteq> set (keys c)"
proof (cases a)
  case (CallGet k)
  show ?thesis
  proof (cases "itemMap c k")
    case None
    then show ?thesis using p CallGet by (auto simp: Get_miss)
  next
    case (Some e)
    from Get_hit[OF inv Some] p CallGet obtain v where
      "r = ReplyValue (Inr v)" "keys c' = k # filter (\<lambda>x. x \<noteq> k) (keys c)"
      by (auto simp: keys_def keys_filter)
    then show ?thesis using CallGet by auto
  qed
next
  case (CallSet k v)
  show ?thesis
  proof (cases "itemMap c k")
    case None
    then have notin: "k \<notin> set (keys c)" using itemMap_keys[OF inv, of k] by simp
    from add_effect[OF inv None, of v] p CallSet None have
      "r = ReplyError None"
      and "keys c' = k # (if size_c c \<le> Len c then butlast (keys c) else keys c)"
      by (auto simp: keys_def Set_def map_butlast)
    then show ?thesis using CallSet notin by (auto dest: in_set_butlastD)
  next
    case (Some e)
    from Set_hit[OF inv Some, of v] p CallSet have
      "r = ReplyError None" "keys c' = k # filter (\<lambda>x. x \<noteq> k) (keys c)"
      by (auto simp: keys_def keys_filter)
    then show ?thesis using CallSet by auto
  qed
next
  case (CallAdd k v)
  show ?thesis
  proof (cases "itemMap c k")
    case None
    then have notin: "k \<notin> set (keys c)" using itemMap_keys[OF inv, of k] by simp
    from add_effect[OF inv None, of v] p CallAdd None have
      "r = ReplyError None"
      and "keys c' = k # (if size_c c \<le> Len c then butlast (keys c) else keys c)"
      by (auto simp: keys_def Add_def map_butlast)
    then show ?thesis using CallAdd notin by (auto dest: in_set_butlastD)
  next
    case (Some e)
    then show ?thesis using p CallAdd by (auto simp: Add_def)
  qed
next
  case (CallRemove k)
  show ?thesis
  proof (cases "itemMap c k")
    case None
    then show ?thesis using p CallRemove by (auto simp: Remove_miss)
  next
    case (Some e)
    from Remove_hit[OF inv Some] p CallRemove have
      "keys c' = filter (\<lambda>x. x \<noteq> k) (keys c)"
      by (auto simp: keys_def keys_filter)
    then show ?thesis using CallRemove by simp
  qed
next
  case CallLen
  then show ?thesis using p by auto
next
  case CallSize
  then show ?thesis using p by auto
next
  case (CallSetSize n)
  show ?thesis
  proof (cases "n \<le> 0")
    case True
    then show ?thesis using p CallSetSize by (auto simp: SetSize_nonpos)
  next
    case False
    then have "0 < n" by simp
    from SetSize_effect[OF inv this] p CallSetSize have
      "keys c' = take (nat n) (keys c)"
      by (auto simp: keys_def take_map)
    then show ?thesis using CallSetSize by (auto dest: in_set_takeD)
  qed
next
  case CallPurge
  then have "c' = Purge c" "touched a r = None" using p by auto
  moreover have "keys (Purge c) = []" by (simp add: keys_def entries_def Purge_def)
  ultimately show ?thesis by simp
qed

lemma Set_head:
  assumes inv: "cache_inv c"
  shows "\<exists>c' es. Set k v c = Inr (None, c') \<and> entries c' = (k, v) # es"
proof (cases "itemMap c k")
  case None
  from add_effect[OF inv None, of v] show ?thesis using None by (auto simp: Set_def)
next
  case (Some e)
  from Set_hit[OF inv Some, of v] show ?thesis by blast
qed

lemma Add_head:
  assumes inv: "cache_inv c" and absent: "itemMap c k = None"
  shows "\<exists>c' es. Add k v c = Inr (None, c') \<and> entries c' = (k, v) # es"
  using add_effect[OF inv absent, of v] absent by (auto simp: Add_def)

section \<open>The claims\<close>

text \<open>
  A cache is reachable when \<open>New\<close> returned it and a sequence of calls of the public
  methods was run on it: \<open>New n = Inr c0\<close> and \<open>run cs c0 = Inr c\<close>, or the same with
  \<open>run_timed\<close> where the stamps of the touches are needed. The examples that follow each
  theorem evaluate the methods on caches with keys of type \<open>string\<close> and values of type
  \<open>int\<close>.
\<close>

subsection \<open>C1\<close>

text \<open>
  Claim C1. In a reachable cache that is full (the number of entries equals the size), a
  \<open>Set\<close> or an \<open>Add\<close> of a key that is not present passes the check
  \<open>Len() >= size\<close>, removes the entry at the back of the list and no other, and puts the
  new key and value at the front. The entry at the back is the one touched longest ago: its
  stamp is the least among the present keys. The count stays at the size, and the index map
  afterwards holds the new key and every old key except the one at the back.
\<close>

theorem insert_at_capacity_evicts_tail:
  assumes "New n = Inr c0" and "run_timed cs 0 (\<lambda>_. 0) c0 = Inr (st, c)"
    and "Len c = Size c" and "itemMap c k = None"
  shows "size_c c \<le> list_Len (lruList c) \<and> entries c \<noteq> [] \<and>
     (\<forall>k' \<in> set (keys c). st (fst (last (entries c))) \<le> st k') \<and>
     (\<exists>c'. Set k v c = Inr (None, c') \<and> Add k v c = Inr (None, c') \<and>
        entries c' = (k, v) # butlast (entries c) \<and>
        Len c' = Len c \<and> Size c' = Size c \<and>
        (\<forall>k'. (itemMap c' k' \<noteq> None) =
           (k' = k \<or> (itemMap c k' \<noteq> None \<and> k' \<noteq> fst (last (entries c))))))"
proof -
  from reached_timed[OF assms(1,2)] have inv: "cache_inv c"
    and ok: "sorted_wrt (\<lambda>a b. st b < st a) (keys c)" by (simp_all add: stamps_ok_def)
  have full: "size_c c \<le> Len c" using assms(3) by (simp add: Size_def)
  have len: "length (entries c) = length (lruList c)" using length_entries[OF inv] .
  have ne: "entries c \<noteq> []"
    using full inv_size[OF inv] len by (auto simp: Len_def list_Len_def)
  have lastk: "fst (last (entries c)) = last (keys c)" using ne by (simp add: keys_def last_map)
  have kne: "keys c \<noteq> []" using ne by (simp add: keys_def)
  have oldest: "\<forall>k' \<in> set (keys c). st (fst (last (entries c))) \<le> st k'"
    using sorted_hd_last[OF ok] lastk by simp
  from add_effect[OF inv assms(4), of v] full obtain c' where
    c': "add k v c = Inr c'" "cache_inv c'" "size_c c' = size_c c"
        "entries c' = (k, v) # butlast (entries c)"
    by auto
  have keys': "keys c' = k # butlast (keys c)" using c'(4) by (simp add: keys_def map_butlast)
  have idx: "(itemMap c' k' \<noteq> None) =
           (k' = k \<or> (itemMap c k' \<noteq> None \<and> k' \<noteq> fst (last (entries c))))" for k'
    unfolding itemMap_keys[OF inv] itemMap_keys[OF c'(2)] keys' lastk
    using in_butlast_distinct[OF distinct_keys[OF inv] kne] by auto
  have "length (entries c') = length (entries c)" using c'(4) ne by simp
  then have "Len c' = Len c"
    using length_entries[OF c'(2)] len by (simp add: Len_def list_Len_def)
  then show ?thesis
    using full ne oldest c' idx assms(4) by (simp add: Set_def Add_def Len_def Size_def)
qed

theorem insert_at_capacity_evicts_tail_witness:
  "New 1 = Inr (\<lparr>size_c = 1, lruList = [], itemMap = Map.empty, elements = Map.empty,
                  fresh = 0\<rparr> :: (string, int) Cache) \<and>
   run_timed [CallSet ''a'' (1::int)] 0 (\<lambda>_. 0)
     \<lparr>size_c = 1, lruList = [], itemMap = Map.empty, elements = Map.empty, fresh = 0\<rparr>
   = Inr ((\<lambda>_. 0)(''a'' := Suc 0),
          \<lparr>size_c = 1, lruList = [0], itemMap = [''a'' \<mapsto> 0],
            elements = [0 \<mapsto> \<lparr>Key = ''a'', Value = 1\<rparr>], fresh = Suc 0\<rparr>) \<and>
   Len \<lparr>size_c = 1, lruList = [0], itemMap = [''a'' \<mapsto> 0],
        elements = [0 \<mapsto> \<lparr>Key = ''a'', Value = 1::int\<rparr>], fresh = Suc 0\<rparr>
   = Size \<lparr>size_c = 1, lruList = [0], itemMap = [''a'' \<mapsto> 0],
        elements = [0 \<mapsto> \<lparr>Key = ''a'', Value = 1::int\<rparr>], fresh = Suc 0\<rparr> \<and>
   [''a'' \<mapsto> (0::nat)] ''b'' = None \<and>
   Set ''b'' 2 \<lparr>size_c = 1, lruList = [0], itemMap = [''a'' \<mapsto> 0],
        elements = [0 \<mapsto> \<lparr>Key = ''a'', Value = 1::int\<rparr>], fresh = Suc 0\<rparr>
   = Inr (None, \<lparr>size_c = 1, lruList = [0], itemMap = [''b'' \<mapsto> 0],
        elements = [0 \<mapsto> \<lparr>Key = ''b'', Value = 2\<rparr>], fresh = Suc 0\<rparr>) \<and>
   Add ''b'' 2 \<lparr>size_c = 1, lruList = [0], itemMap = [''a'' \<mapsto> 0],
        elements = [0 \<mapsto> \<lparr>Key = ''a'', Value = 1::int\<rparr>], fresh = Suc 0\<rparr>
   = Inr (None, \<lparr>size_c = 1, lruList = [0], itemMap = [''b'' \<mapsto> 0],
        elements = [0 \<mapsto> \<lparr>Key = ''b'', Value = 2\<rparr>], fresh = Suc 0\<rparr>)"
proof -
  let ?init = "\<lparr>size_c = 1, lruList = [], itemMap = Map.empty, elements = Map.empty,
                 fresh = 0\<rparr> :: (string, int) Cache"
  let ?full = "\<lparr>size_c = 1, lruList = [0], itemMap = [''a'' \<mapsto> 0],
                 elements = [0 \<mapsto> \<lparr>Key = ''a'', Value = 1\<rparr>], fresh = Suc 0\<rparr>
               :: (string, int) Cache"
  have h1: "New 1 = Inr ?init" by (simp add: New_def)
  have h2: "run_timed [CallSet ''a'' 1] 0 (\<lambda>_. 0) ?init = Inr ((\<lambda>_. 0)(''a'' := Suc 0), ?full)"
    by (simp add: Set_def add_def list_Len_def list_PushFront_def)
  have h3: "Len ?full = Size ?full" by (simp add: Len_def Size_def list_Len_def)
  have h4: "itemMap ?full ''b'' = None" by simp
  from insert_at_capacity_evicts_tail[OF h1 h2 h3 h4, of 2] show ?thesis
    by (simp add: New_def Set_def Add_def add_def list_Len_def list_Back_def
        list_MoveToFront_def list_PushFront_def Len_def Size_def)
qed

subsection \<open>C2\<close>

text \<open>
  Claim C2. After any sequence of calls on a new cache, the keys from the front of the list
  to its back are in the order of their last touch, latest first: the stamps strictly
  decrease along the list, so the front carries the greatest stamp and the back the least.
  Every touch brings its key to the front: a \<open>Get\<close> that finds its key moves it to the
  front and keeps the order of the others; every \<open>Set(k, v)\<close> returns no error and leaves
  \<open>(k, v)\<close> as the first entry; an \<open>Add(k, v)\<close> of an absent key returns no error and
  leaves \<open>(k, v)\<close> as the first entry; and for any call that touches a key, that key is
  the first key afterwards and the keys behind it were present before. A call that touches
  no key adds none.
  With size 2 and three different keys \<open>a\<close>, \<open>b\<close>, \<open>d\<close>, the calls \<open>Set(a, v1)\<close>,
  \<open>Set(b, v2)\<close>, \<open>Get(a)\<close>, \<open>Set(d, v3)\<close> leave the keys \<open>d\<close>, \<open>a\<close>; then \<open>Get(a)\<close>
  returns \<open>v1\<close>, \<open>Get(d)\<close> returns \<open>v3\<close> and \<open>Get(b)\<close> returns \<open>ErrNotFound\<close>.
\<close>

theorem recency_order_reflects_touch_order:
  assumes "New n = Inr c0" and "run_timed cs 0 (\<lambda>_. 0) c0 = Inr (st, c)"
  shows "sorted_wrt (\<lambda>x y. st y < st x) (keys c) \<and>
     (\<forall>k \<in> set (keys c). st k \<le> st (hd (keys c)) \<and> st (last (keys c)) \<le> st k) \<and>
     (\<forall>k e. itemMap c k = Some e \<longrightarrow>
        (\<exists>v c'. Get k c = Inr (Inr v, c') \<and> keys c' = k # filter (\<lambda>x. x \<noteq> k) (keys c))) \<and>
     (\<forall>k v. \<exists>c' es. Set k v c = Inr (None, c') \<and> entries c' = (k, v) # es) \<and>
     (\<forall>k v. itemMap c k = None \<longrightarrow>
        (\<exists>c' es. Add k v c = Inr (None, c') \<and> entries c' = (k, v) # es)) \<and>
     (\<forall>call r c' k. perform call c = Inr (r, c') \<and> touched call r = Some k \<longrightarrow>
        (\<exists>ks. keys c' = k # ks \<and> set ks \<subseteq> set (keys c) - {k})) \<and>
     (\<forall>call r c'. perform call c = Inr (r, c') \<and> touched call r = None \<longrightarrow>
        set (keys c') \<subseteq> set (keys c)) \<and>
     (a \<noteq> b \<and> a \<noteq> d \<and> b \<noteq> d \<longrightarrow>
        (\<exists>c1 c2 c3 c4 c5 c6 c7.
           New 2 = Inr c1 \<and> Set a v1 c1 = Inr (None, c2) \<and> Set b v2 c2 = Inr (None, c3) \<and>
           Get a c3 = Inr (Inr v1, c4) \<and> Set d v3 c4 = Inr (None, c5) \<and>
           keys c5 = [d, a] \<and>
           Get a c5 = Inr (Inr v1, c6) \<and> Get d c5 = Inr (Inr v3, c7) \<and>
           Get b c5 = Inr (Inl ErrNotFound, c5)))"
proof -
  from reached_timed[OF assms] have inv: "cache_inv c"
    and ok: "sorted_wrt (\<lambda>x y. st y < st x) (keys c)" by (simp_all add: stamps_ok_def)
  have ends: "\<forall>k \<in> set (keys c). st k \<le> st (hd (keys c)) \<and> st (last (keys c)) \<le> st k"
    using sorted_hd_last[OF ok] by blast
  have hit: "\<exists>v c'. Get k c = Inr (Inr v, c') \<and> keys c' = k # filter (\<lambda>x. x \<noteq> k) (keys c)"
    if "itemMap c k = Some e" for k e
    using Get_hit[OF inv that] by (auto simp: keys_def keys_filter)
  have set_head: "\<forall>k v. \<exists>c' es. Set k v c = Inr (None, c') \<and> entries c' = (k, v) # es"
    using Set_head[OF inv] by blast
  have add_head: "\<forall>k v. itemMap c k = None \<longrightarrow>
        (\<exists>c' es. Add k v c = Inr (None, c') \<and> entries c' = (k, v) # es)"
    using Add_head[OF inv] by blast
  have touch: "\<exists>ks. keys c' = k # ks \<and> set ks \<subseteq> set (keys c) - {k}"
    if "perform call c = Inr (r, c')" "touched call r = Some k" for call r c' k
    using perform_keys[OF inv that(1)] that(2) by simp
  have quiet: "set (keys c') \<subseteq> set (keys c)"
    if "perform call c = Inr (r, c')" "touched call r = None" for call r c'
    using perform_keys[OF inv that(1)] that(2) by simp
  have scen: "\<exists>c1 c2 c3 c4 c5 c6 c7.
           New 2 = Inr c1 \<and> Set a v1 c1 = Inr (None, c2) \<and> Set b v2 c2 = Inr (None, c3) \<and>
           Get a c3 = Inr (Inr v1, c4) \<and> Set d v3 c4 = Inr (None, c5) \<and>
           keys c5 = [d, a] \<and>
           Get a c5 = Inr (Inr v1, c6) \<and> Get d c5 = Inr (Inr v3, c7) \<and>
           Get b c5 = Inr (Inl ErrNotFound, c5)"
    if "a \<noteq> b" "a \<noteq> d" "b \<noteq> d"
    using that
    by (simp add: New_def Set_def Get_def add_def list_Len_def list_Back_def
        list_MoveToFront_def list_PushFront_def keys_def entries_def)
  from touch have touch': "\<forall>call r c' k. perform call c = Inr (r, c') \<and> touched call r = Some k \<longrightarrow>
        (\<exists>ks. keys c' = k # ks \<and> set ks \<subseteq> set (keys c) - {k})" by blast
  from quiet have quiet': "\<forall>call r c'. perform call c = Inr (r, c') \<and> touched call r = None \<longrightarrow>
        set (keys c') \<subseteq> set (keys c)" by blast
  from hit have hit': "\<forall>k e. itemMap c k = Some e \<longrightarrow>
        (\<exists>v c'. Get k c = Inr (Inr v, c') \<and> keys c' = k # filter (\<lambda>x. x \<noteq> k) (keys c))"
    by blast
  from scen have scen': "a \<noteq> b \<and> a \<noteq> d \<and> b \<noteq> d \<longrightarrow>
        (\<exists>c1 c2 c3 c4 c5 c6 c7.
           New 2 = Inr c1 \<and> Set a v1 c1 = Inr (None, c2) \<and> Set b v2 c2 = Inr (None, c3) \<and>
           Get a c3 = Inr (Inr v1, c4) \<and> Set d v3 c4 = Inr (None, c5) \<and>
           keys c5 = [d, a] \<and>
           Get a c5 = Inr (Inr v1, c6) \<and> Get d c5 = Inr (Inr v3, c7) \<and>
           Get b c5 = Inr (Inl ErrNotFound, c5))" by blast
  show ?thesis
    by (intro conjI) (rule ok ends hit' set_head add_head touch' quiet' scen')+
qed

theorem recency_order_reflects_touch_order_witness:
  "New 2 = Inr (\<lparr>size_c = 2, lruList = [], itemMap = Map.empty, elements = Map.empty,
                  fresh = 0\<rparr> :: (string, int) Cache) \<and>
   run_timed [CallSet ''a'' (1::int), CallSet ''b'' 2, CallGet ''a''] 0 (\<lambda>_. 0)
     \<lparr>size_c = 2, lruList = [], itemMap = Map.empty, elements = Map.empty, fresh = 0\<rparr>
   = Inr ((\<lambda>_. 0)(''b'' := Suc (Suc 0), ''a'' := Suc (Suc (Suc 0))),
          \<lparr>size_c = 2, lruList = [0, Suc 0], itemMap = [''a'' \<mapsto> 0, ''b'' \<mapsto> Suc 0],
            elements = [0 \<mapsto> \<lparr>Key = ''a'', Value = 1\<rparr>, Suc 0 \<mapsto> \<lparr>Key = ''b'', Value = 2\<rparr>],
            fresh = Suc (Suc 0)\<rparr>) \<and>
   keys \<lparr>size_c = 2, lruList = [0, Suc 0], itemMap = [''a'' \<mapsto> 0, ''b'' \<mapsto> Suc 0],
          elements = [0 \<mapsto> \<lparr>Key = ''a'', Value = 1::int\<rparr>, Suc 0 \<mapsto> \<lparr>Key = ''b'', Value = 2\<rparr>],
          fresh = Suc (Suc 0)\<rparr> = [''a'', ''b''] \<and>
   sorted_wrt (\<lambda>x y. ((\<lambda>_. 0)(''b'' := Suc (Suc 0), ''a'' := Suc (Suc (Suc 0)))) y
                    < ((\<lambda>_. 0)(''b'' := Suc (Suc 0), ''a'' := Suc (Suc (Suc 0)))) x)
     [''a'', ''b''] \<and>
   [''a'' \<mapsto> 0, ''b'' \<mapsto> Suc 0] ''b'' = Some (Suc 0) \<and>
   Get ''b'' \<lparr>size_c = 2, lruList = [0, Suc 0], itemMap = [''a'' \<mapsto> 0, ''b'' \<mapsto> Suc 0],
          elements = [0 \<mapsto> \<lparr>Key = ''a'', Value = 1::int\<rparr>, Suc 0 \<mapsto> \<lparr>Key = ''b'', Value = 2\<rparr>],
          fresh = Suc (Suc 0)\<rparr>
   = Inr (Inr 2,
          \<lparr>size_c = 2, lruList = [Suc 0, 0], itemMap = [''a'' \<mapsto> 0, ''b'' \<mapsto> Suc 0],
          elements = [0 \<mapsto> \<lparr>Key = ''a'', Value = 1\<rparr>, Suc 0 \<mapsto> \<lparr>Key = ''b'', Value = 2\<rparr>],
          fresh = Suc (Suc 0)\<rparr>) \<and>
   [''a'' \<mapsto> 0, ''b'' \<mapsto> Suc 0] ''c'' = None \<and>
   perform (CallAdd ''c'' 3) \<lparr>size_c = 2, lruList = [0, Suc 0], itemMap = [''a'' \<mapsto> 0, ''b'' \<mapsto> Suc 0],
          elements = [0 \<mapsto> \<lparr>Key = ''a'', Value = 1::int\<rparr>, Suc 0 \<mapsto> \<lparr>Key = ''b'', Value = 2\<rparr>],
          fresh = Suc (Suc 0)\<rparr>
   = Inr (ReplyError None,
          \<lparr>size_c = 2, lruList = [Suc 0, 0], itemMap = [''a'' \<mapsto> 0, ''c'' \<mapsto> Suc 0],
          elements = [0 \<mapsto> \<lparr>Key = ''a'', Value = 1\<rparr>, Suc 0 \<mapsto> \<lparr>Key = ''c'', Value = 3\<rparr>],
          fresh = Suc (Suc 0)\<rparr>) \<and>
   touched (CallAdd ''c'' (3::int)) (ReplyError None) = Some ''c'' \<and>
   keys \<lparr>size_c = 2, lruList = [Suc 0, 0], itemMap = [''a'' \<mapsto> 0, ''c'' \<mapsto> Suc 0],
          elements = [0 \<mapsto> \<lparr>Key = ''a'', Value = 1::int\<rparr>, Suc 0 \<mapsto> \<lparr>Key = ''c'', Value = 3\<rparr>],
          fresh = Suc (Suc 0)\<rparr> = [''c'', ''a''] \<and>
   perform (CallRemove ''a'') \<lparr>size_c = 2, lruList = [0, Suc 0], itemMap = [''a'' \<mapsto> 0, ''b'' \<mapsto> Suc 0],
          elements = [0 \<mapsto> \<lparr>Key = ''a'', Value = 1::int\<rparr>, Suc 0 \<mapsto> \<lparr>Key = ''b'', Value = 2\<rparr>],
          fresh = Suc (Suc 0)\<rparr>
   = Inr (ReplyError None,
          \<lparr>size_c = 2, lruList = [Suc 0], itemMap = [''b'' \<mapsto> Suc 0],
          elements = [0 \<mapsto> \<lparr>Key = ''a'', Value = 1\<rparr>, Suc 0 \<mapsto> \<lparr>Key = ''b'', Value = 2\<rparr>],
          fresh = Suc (Suc 0)\<rparr>) \<and>
   touched (CallRemove ''a'' :: (string, int) call) (ReplyError None :: int reply) = None \<and>
   keys \<lparr>size_c = 2, lruList = [Suc 0], itemMap = [''b'' \<mapsto> Suc 0],
          elements = [0 \<mapsto> \<lparr>Key = ''a'', Value = 1::int\<rparr>, Suc 0 \<mapsto> \<lparr>Key = ''b'', Value = 2\<rparr>],
          fresh = Suc (Suc 0)\<rparr> = [''b''] \<and>
   New 3 = Inr (\<lparr>size_c = 3, lruList = [], itemMap = Map.empty, elements = Map.empty,
                  fresh = 0\<rparr> :: (string, int) Cache) \<and>
   run_timed [CallSet ''a'' (1::int)] 0 (\<lambda>_. 0)
     \<lparr>size_c = 3, lruList = [], itemMap = Map.empty, elements = Map.empty, fresh = 0\<rparr>
   = Inr ((\<lambda>_. 0)(''a'' := Suc 0),
          \<lparr>size_c = 3, lruList = [0], itemMap = [''a'' \<mapsto> 0],
            elements = [0 \<mapsto> \<lparr>Key = ''a'', Value = 1\<rparr>], fresh = Suc 0\<rparr>) \<and>
   [''a'' \<mapsto> (0::nat)] ''b'' = None \<and>
   Add ''b'' 2 \<lparr>size_c = 3, lruList = [0], itemMap = [''a'' \<mapsto> 0],
            elements = [0 \<mapsto> \<lparr>Key = ''a'', Value = 1::int\<rparr>], fresh = Suc 0\<rparr>
   = Inr (None,
          \<lparr>size_c = 3, lruList = [Suc 0, 0], itemMap = [''a'' \<mapsto> 0, ''b'' \<mapsto> Suc 0],
            elements = [0 \<mapsto> \<lparr>Key = ''a'', Value = 1\<rparr>, Suc 0 \<mapsto> \<lparr>Key = ''b'', Value = 2\<rparr>],
            fresh = Suc (Suc 0)\<rparr>) \<and>
   entries \<lparr>size_c = 3, lruList = [Suc 0, 0], itemMap = [''a'' \<mapsto> 0, ''b'' \<mapsto> Suc 0],
            elements = [0 \<mapsto> \<lparr>Key = ''a'', Value = 1::int\<rparr>, Suc 0 \<mapsto> \<lparr>Key = ''b'', Value = 2\<rparr>],
            fresh = Suc (Suc 0)\<rparr> = [(''b'', 2), (''a'', 1)] \<and>
   Set ''b'' 5 \<lparr>size_c = 3, lruList = [0], itemMap = [''a'' \<mapsto> 0],
            elements = [0 \<mapsto> \<lparr>Key = ''a'', Value = 1::int\<rparr>], fresh = Suc 0\<rparr>
   = Inr (None,
          \<lparr>size_c = 3, lruList = [Suc 0, 0], itemMap = [''a'' \<mapsto> 0, ''b'' \<mapsto> Suc 0],
            elements = [0 \<mapsto> \<lparr>Key = ''a'', Value = 1\<rparr>, Suc 0 \<mapsto> \<lparr>Key = ''b'', Value = 5\<rparr>],
            fresh = Suc (Suc 0)\<rparr>) \<and>
   ''a'' \<noteq> ''b'' \<and> ''a'' \<noteq> ''c'' \<and> ''b'' \<noteq> ''c'' \<and>
   run [CallSet ''a'' (1::int), CallSet ''b'' 2, CallGet ''a'', CallSet ''c'' 3]
     \<lparr>size_c = 2, lruList = [], itemMap = Map.empty, elements = Map.empty, fresh = 0\<rparr>
   = Inr \<lparr>size_c = 2, lruList = [Suc 0, 0], itemMap = [''a'' \<mapsto> 0, ''c'' \<mapsto> Suc 0],
          elements = [0 \<mapsto> \<lparr>Key = ''a'', Value = 1\<rparr>, Suc 0 \<mapsto> \<lparr>Key = ''c'', Value = 3\<rparr>],
          fresh = Suc (Suc 0)\<rparr> \<and>
   Get ''b'' \<lparr>size_c = 2, lruList = [Suc 0, 0], itemMap = [''a'' \<mapsto> 0, ''c'' \<mapsto> Suc 0],
          elements = [0 \<mapsto> \<lparr>Key = ''a'', Value = 1::int\<rparr>, Suc 0 \<mapsto> \<lparr>Key = ''c'', Value = 3\<rparr>],
          fresh = Suc (Suc 0)\<rparr>
   = Inr (Inl ErrNotFound,
          \<lparr>size_c = 2, lruList = [Suc 0, 0], itemMap = [''a'' \<mapsto> 0, ''c'' \<mapsto> Suc 0],
          elements = [0 \<mapsto> \<lparr>Key = ''a'', Value = 1\<rparr>, Suc 0 \<mapsto> \<lparr>Key = ''c'', Value = 3\<rparr>],
          fresh = Suc (Suc 0)\<rparr>)"
proof -
  let ?init = "\<lparr>size_c = 2, lruList = [], itemMap = Map.empty, elements = Map.empty,
                 fresh = 0\<rparr> :: (string, int) Cache"
  let ?fin = "\<lparr>size_c = 2, lruList = [0, Suc 0], itemMap = [''a'' \<mapsto> 0, ''b'' \<mapsto> Suc 0],
          elements = [0 \<mapsto> \<lparr>Key = ''a'', Value = 1\<rparr>, Suc 0 \<mapsto> \<lparr>Key = ''b'', Value = 2\<rparr>],
          fresh = Suc (Suc 0)\<rparr> :: (string, int) Cache"
  have h1: "New 2 = Inr ?init" by (simp add: New_def)
  have h2: "run_timed [CallSet ''a'' 1, CallSet ''b'' 2, CallGet ''a''] 0 (\<lambda>_. 0) ?init
            = Inr ((\<lambda>_. 0)(''b'' := Suc (Suc 0), ''a'' := Suc (Suc (Suc 0))), ?fin)"
    by (simp add: Set_def Get_def add_def list_Len_def list_Back_def list_MoveToFront_def
        list_PushFront_def)
  let ?init3 = "\<lparr>size_c = 3, lruList = [], itemMap = Map.empty, elements = Map.empty,
                  fresh = 0\<rparr> :: (string, int) Cache"
  let ?one = "\<lparr>size_c = 3, lruList = [0], itemMap = [''a'' \<mapsto> 0],
            elements = [0 \<mapsto> \<lparr>Key = ''a'', Value = 1\<rparr>], fresh = Suc 0\<rparr> :: (string, int) Cache"
  have h3: "New 3 = Inr ?init3" by (simp add: New_def)
  have h4: "run_timed [CallSet ''a'' 1] 0 (\<lambda>_. 0) ?init3 = Inr ((\<lambda>_. 0)(''a'' := Suc 0), ?one)"
    by (simp add: Set_def add_def list_Len_def list_PushFront_def)
  from recency_order_reflects_touch_order[OF h1 h2,
      where a = "''a''" and b = "''b''" and d = "''c''" and ?v1.0 = 1 and ?v2.0 = 2 and ?v3.0 = 3]
    recency_order_reflects_touch_order[OF h3 h4,
      where a = "''a''" and b = "''b''" and d = "''c''" and ?v1.0 = 1 and ?v2.0 = 2 and ?v3.0 = 3]
  show ?thesis
    by (simp add: New_def Set_def Get_def Add_def Remove_def remove_def add_def list_Len_def
        list_Back_def list_MoveToFront_def list_Remove_def list_PushFront_def keys_def
        entries_def)
qed

subsection \<open>C3\<close>

text \<open>
  Claim C3. In every cache reachable from a new one by calls of the public methods, the
  length of the recency list is the number of keys of the index map, \<open>Len()\<close> is at most
  \<open>Size()\<close>, and every entry of the index map points to an element of the list whose
  payload carries that entry's key.
\<close>

theorem invariants_hold:
  assumes "New n = Inr c0" and "run cs c0 = Inr c"
  shows "Len c = int (card (dom (itemMap c))) \<and>
         list_Len (lruList c) = int (card (dom (itemMap c))) \<and>
         Len c \<le> Size c \<and>
         (\<forall>k e. itemMap c k = Some e \<longrightarrow>
            e \<in> set (lruList c) \<and> (\<exists>p. elements c e = Some p \<and> Key p = k))"
proof -
  have inv: "cache_inv c" using reached_inv[OF assms] .
  show ?thesis
    using card_index[OF inv] inv_len[OF inv] inv_map_in[OF inv] inv_map_key[OF inv]
    by (simp add: Len_def Size_def list_Len_def)
qed

theorem invariants_hold_witness:
  "New 1 = Inr (\<lparr>size_c = 1, lruList = [], itemMap = Map.empty, elements = Map.empty,
                  fresh = 0\<rparr> :: (string, int) Cache) \<and>
   run [CallSet ''a'' (1::int), CallSet ''b'' 2]
     \<lparr>size_c = 1, lruList = [], itemMap = Map.empty, elements = Map.empty, fresh = 0\<rparr>
   = Inr \<lparr>size_c = 1, lruList = [0], itemMap = [''b'' \<mapsto> 0],
          elements = [0 \<mapsto> \<lparr>Key = ''b'', Value = 2\<rparr>], fresh = Suc 0\<rparr> \<and>
   Len \<lparr>size_c = 1, lruList = [0], itemMap = [''b'' \<mapsto> 0],
          elements = [0 \<mapsto> \<lparr>Key = ''b'', Value = 2::int\<rparr>], fresh = Suc 0\<rparr>
     = int (card (dom [''b'' \<mapsto> (0::nat)])) \<and>
   Len \<lparr>size_c = 1, lruList = [0], itemMap = [''b'' \<mapsto> 0],
          elements = [0 \<mapsto> \<lparr>Key = ''b'', Value = 2::int\<rparr>], fresh = Suc 0\<rparr>
     \<le> Size \<lparr>size_c = 1, lruList = [0], itemMap = [''b'' \<mapsto> 0],
          elements = [0 \<mapsto> \<lparr>Key = ''b'', Value = 2::int\<rparr>], fresh = Suc 0\<rparr> \<and>
   [''b'' \<mapsto> (0::nat)] ''b'' = Some 0 \<and> (0::nat) \<in> set [0] \<and>
   [0 \<mapsto> \<lparr>Key = ''b'', Value = 2::int\<rparr>] (0::nat) = Some \<lparr>Key = ''b'', Value = 2\<rparr> \<and>
   Key \<lparr>Key = ''b'', Value = 2::int\<rparr> = ''b''"
proof -
  let ?init = "\<lparr>size_c = 1, lruList = [], itemMap = Map.empty, elements = Map.empty, fresh = 0\<rparr>
               :: (string, int) Cache"
  let ?fin = "\<lparr>size_c = 1, lruList = [0], itemMap = [''b'' \<mapsto> 0],
             elements = [0 \<mapsto> \<lparr>Key = ''b'', Value = 2\<rparr>], fresh = Suc 0\<rparr> :: (string, int) Cache"
  have h1: "New 1 = Inr ?init" by (simp add: New_def)
  have h2: "run [CallSet ''a'' 1, CallSet ''b'' 2] ?init = Inr ?fin"
    by (simp add: Set_def add_def list_Len_def list_Back_def list_MoveToFront_def
        list_PushFront_def)
  from invariants_hold[OF h1 h2] show ?thesis
    by (simp add: New_def Set_def add_def list_Len_def list_Back_def list_MoveToFront_def
        list_PushFront_def Len_def Size_def)
qed

subsection \<open>C4\<close>

text \<open>
  Claim C4. On a reachable cache, \<open>SetSize(n)\<close> with \<open>n \<le> 0\<close> returns the cache
  unchanged. With \<open>0 < n\<close> it sets the size to \<open>n\<close> and keeps the first \<open>n\<close> entries
  from the front of the list: when the count exceeds \<open>n\<close>, the \<open>Len() - n\<close> entries at
  the back are removed from the list and from the index map and the count becomes \<open>n\<close>;
  otherwise the entries stay as they are.
\<close>

theorem SetSize_behaviour:
  assumes "New n0 = Inr c0" and "run cs c0 = Inr c"
  shows "(n \<le> 0 \<longrightarrow> SetSize n c = Inr c) \<and>
     (0 < n \<longrightarrow>
        (\<exists>c'. SetSize n c = Inr c' \<and> Size c' = n \<and>
           entries c' = take (nat n) (entries c) \<and>
           (\<forall>k. (itemMap c' k \<noteq> None) = (k \<in> set (take (nat n) (keys c)))) \<and>
           (n < Len c \<longrightarrow>
              Len c' = n \<and> entries c = entries c' @ drop (nat n) (entries c) \<and>
              int (length (drop (nat n) (entries c))) = Len c - n) \<and>
           (Len c \<le> n \<longrightarrow> entries c' = entries c \<and> Len c' = Len c)))"
proof -
  have inv: "cache_inv c" using reached_inv[OF assms] .
  have len: "Len c = int (length (entries c))"
    using length_entries[OF inv] by (simp add: Len_def list_Len_def)
  have pos: "\<exists>c'. SetSize n c = Inr c' \<and> Size c' = n \<and>
           entries c' = take (nat n) (entries c) \<and>
           (\<forall>k. (itemMap c' k \<noteq> None) = (k \<in> set (take (nat n) (keys c)))) \<and>
           (n < Len c \<longrightarrow>
              Len c' = n \<and> entries c = entries c' @ drop (nat n) (entries c) \<and>
              int (length (drop (nat n) (entries c))) = Len c - n) \<and>
           (Len c \<le> n \<longrightarrow> entries c' = entries c \<and> Len c' = Len c)"
    if n: "0 < n"
  proof -
    from SetSize_effect[OF inv n] obtain c' where
      c': "SetSize n c = Inr c'" "cache_inv c'" "size_c c' = n"
          "entries c' = take (nat n) (entries c)"
      by blast
    have len': "Len c' = int (length (entries c'))"
      using length_entries[OF c'(2)] by (simp add: Len_def list_Len_def)
    have idx: "(itemMap c' k \<noteq> None) = (k \<in> set (take (nat n) (keys c)))" for k
      unfolding itemMap_keys[OF c'(2)] using c'(4) by (simp add: keys_def take_map)
    have shrink: "Len c' = n \<and> entries c = entries c' @ drop (nat n) (entries c) \<and>
              int (length (drop (nat n) (entries c))) = Len c - n" if "n < Len c"
      using that n len len' c'(4) by simp
    have keep: "entries c' = entries c \<and> Len c' = Len c" if "Len c \<le> n"
      using that len len' c'(4) by simp
    show ?thesis using c'(1,3,4) idx shrink keep by (auto simp: Size_def)
  qed
  show ?thesis using pos by (simp add: SetSize_nonpos)
qed

theorem SetSize_behaviour_witness:
  "New 2 = Inr (\<lparr>size_c = 2, lruList = [], itemMap = Map.empty, elements = Map.empty,
                  fresh = 0\<rparr> :: (string, int) Cache) \<and>
   run [CallSet ''a'' (1::int), CallSet ''b'' 2]
     \<lparr>size_c = 2, lruList = [], itemMap = Map.empty, elements = Map.empty, fresh = 0\<rparr>
   = Inr \<lparr>size_c = 2, lruList = [Suc 0, 0], itemMap = [''a'' \<mapsto> 0, ''b'' \<mapsto> Suc 0],
          elements = [0 \<mapsto> \<lparr>Key = ''a'', Value = 1\<rparr>, Suc 0 \<mapsto> \<lparr>Key = ''b'', Value = 2\<rparr>],
          fresh = Suc (Suc 0)\<rparr> \<and>
   (0::int) \<le> 0 \<and>
   SetSize 0 \<lparr>size_c = 2, lruList = [Suc 0, 0], itemMap = [''a'' \<mapsto> 0, ''b'' \<mapsto> Suc 0],
          elements = [0 \<mapsto> \<lparr>Key = ''a'', Value = 1::int\<rparr>, Suc 0 \<mapsto> \<lparr>Key = ''b'', Value = 2\<rparr>],
          fresh = Suc (Suc 0)\<rparr>
   = Inr \<lparr>size_c = 2, lruList = [Suc 0, 0], itemMap = [''a'' \<mapsto> 0, ''b'' \<mapsto> Suc 0],
          elements = [0 \<mapsto> \<lparr>Key = ''a'', Value = 1\<rparr>, Suc 0 \<mapsto> \<lparr>Key = ''b'', Value = 2\<rparr>],
          fresh = Suc (Suc 0)\<rparr> \<and>
   (0::int) < 1 \<and>
   1 < Len \<lparr>size_c = 2, lruList = [Suc 0, 0], itemMap = [''a'' \<mapsto> 0, ''b'' \<mapsto> Suc 0],
          elements = [0 \<mapsto> \<lparr>Key = ''a'', Value = 1::int\<rparr>, Suc 0 \<mapsto> \<lparr>Key = ''b'', Value = 2\<rparr>],
          fresh = Suc (Suc 0)\<rparr> \<and>
   SetSize 1 \<lparr>size_c = 2, lruList = [Suc 0, 0], itemMap = [''a'' \<mapsto> 0, ''b'' \<mapsto> Suc 0],
          elements = [0 \<mapsto> \<lparr>Key = ''a'', Value = 1::int\<rparr>, Suc 0 \<mapsto> \<lparr>Key = ''b'', Value = 2\<rparr>],
          fresh = Suc (Suc 0)\<rparr>
   = Inr \<lparr>size_c = 1, lruList = [Suc 0], itemMap = [''b'' \<mapsto> Suc 0],
          elements = [0 \<mapsto> \<lparr>Key = ''a'', Value = 1\<rparr>, Suc 0 \<mapsto> \<lparr>Key = ''b'', Value = 2\<rparr>],
          fresh = Suc (Suc 0)\<rparr> \<and>
   Len \<lparr>size_c = 2, lruList = [Suc 0, 0], itemMap = [''a'' \<mapsto> 0, ''b'' \<mapsto> Suc 0],
          elements = [0 \<mapsto> \<lparr>Key = ''a'', Value = 1::int\<rparr>, Suc 0 \<mapsto> \<lparr>Key = ''b'', Value = 2\<rparr>],
          fresh = Suc (Suc 0)\<rparr> \<le> 5 \<and>
   SetSize 5 \<lparr>size_c = 2, lruList = [Suc 0, 0], itemMap = [''a'' \<mapsto> 0, ''b'' \<mapsto> Suc 0],
          elements = [0 \<mapsto> \<lparr>Key = ''a'', Value = 1::int\<rparr>, Suc 0 \<mapsto> \<lparr>Key = ''b'', Value = 2\<rparr>],
          fresh = Suc (Suc 0)\<rparr>
   = Inr \<lparr>size_c = 5, lruList = [Suc 0, 0], itemMap = [''a'' \<mapsto> 0, ''b'' \<mapsto> Suc 0],
          elements = [0 \<mapsto> \<lparr>Key = ''a'', Value = 1\<rparr>, Suc 0 \<mapsto> \<lparr>Key = ''b'', Value = 2\<rparr>],
          fresh = Suc (Suc 0)\<rparr>"
proof -
  let ?init = "\<lparr>size_c = 2, lruList = [], itemMap = Map.empty, elements = Map.empty,
                 fresh = 0\<rparr> :: (string, int) Cache"
  let ?two = "\<lparr>size_c = 2, lruList = [Suc 0, 0], itemMap = [''a'' \<mapsto> 0, ''b'' \<mapsto> Suc 0],
          elements = [0 \<mapsto> \<lparr>Key = ''a'', Value = 1\<rparr>, Suc 0 \<mapsto> \<lparr>Key = ''b'', Value = 2\<rparr>],
          fresh = Suc (Suc 0)\<rparr> :: (string, int) Cache"
  have h1: "New 2 = Inr ?init" by (simp add: New_def)
  have h2: "run [CallSet ''a'' 1, CallSet ''b'' 2] ?init = Inr ?two"
    by (simp add: Set_def add_def list_Len_def list_PushFront_def)
  from SetSize_behaviour[OF h1 h2, of 0] SetSize_behaviour[OF h1 h2, of 1]
    SetSize_behaviour[OF h1 h2, of 5]
  show ?thesis
    by (simp add: New_def Set_def add_def list_Len_def list_PushFront_def Len_def
        SetSize_def SetSize_loop.simps remove_def list_Back_def list_Remove_def)
qed

subsection \<open>C5\<close>

text \<open>
  Claim C5. On a reachable cache, \<open>Set(k, v)\<close> returns no error and a \<open>Get(k)\<close> right
  after it returns \<open>v\<close> with no error. When \<open>k\<close> was present its value is overwritten
  and its entry moves to the front; when \<open>k\<close> was absent the entry \<open>(k, v)\<close> is put at
  the front, after the entry at the back is removed if the cache was full.
\<close>

theorem Set_then_Get:
  assumes "New n = Inr c0" and "run cs c0 = Inr c"
  shows "\<exists>c' c''. Set k v c = Inr (None, c') \<and> Get k c' = Inr (Inr v, c'') \<and>
     (itemMap c k \<noteq> None \<longrightarrow> entries c' = (k, v) # filter (\<lambda>x. fst x \<noteq> k) (entries c)) \<and>
     (itemMap c k = None \<longrightarrow>
        entries c' = (k, v) # (if Size c \<le> Len c then butlast (entries c) else entries c))"
proof (cases "itemMap c k")
  case None
  have inv: "cache_inv c" using reached_inv[OF assms] .
  from add_effect[OF inv None, of v] obtain c' where
    c': "add k v c = Inr c'" "cache_inv c'"
        "entries c' = (k, v) # (if size_c c \<le> Len c then butlast (entries c) else entries c)"
    by blast
  have s: "Set k v c = Inr (None, c')" using None c'(1) by (simp add: Set_def)
  from Get_head[OF c'(2,3)] obtain c'' where "Get k c' = Inr (Inr v, c'')" by blast
  then show ?thesis using s c'(3) None by (auto simp: Size_def)
next
  case (Some e)
  have inv: "cache_inv c" using reached_inv[OF assms] .
  from Set_hit[OF inv Some, of v] obtain c' where
    c': "Set k v c = Inr (None, c')" "cache_inv c'"
        "entries c' = (k, v) # filter (\<lambda>x. fst x \<noteq> k) (entries c)"
    by blast
  from Get_head[OF c'(2,3)] obtain c'' where "Get k c' = Inr (Inr v, c'')" by blast
  then show ?thesis using c'(1,3) Some by auto
qed

theorem Set_then_Get_witness:
  "New 1 = Inr (\<lparr>size_c = 1, lruList = [], itemMap = Map.empty, elements = Map.empty,
                  fresh = 0\<rparr> :: (string, int) Cache) \<and>
   run [CallSet ''a'' (1::int)]
     \<lparr>size_c = 1, lruList = [], itemMap = Map.empty, elements = Map.empty, fresh = 0\<rparr>
   = Inr \<lparr>size_c = 1, lruList = [0], itemMap = [''a'' \<mapsto> 0],
          elements = [0 \<mapsto> \<lparr>Key = ''a'', Value = 1\<rparr>], fresh = Suc 0\<rparr> \<and>
   [''a'' \<mapsto> (0::nat)] ''b'' = None \<and>
   Set ''b'' 2 \<lparr>size_c = 1, lruList = [0], itemMap = [''a'' \<mapsto> 0],
        elements = [0 \<mapsto> \<lparr>Key = ''a'', Value = 1::int\<rparr>], fresh = Suc 0\<rparr>
   = Inr (None, \<lparr>size_c = 1, lruList = [0], itemMap = [''b'' \<mapsto> 0],
        elements = [0 \<mapsto> \<lparr>Key = ''b'', Value = 2\<rparr>], fresh = Suc 0\<rparr>) \<and>
   Get ''b'' \<lparr>size_c = 1, lruList = [0], itemMap = [''b'' \<mapsto> 0],
        elements = [0 \<mapsto> \<lparr>Key = ''b'', Value = 2::int\<rparr>], fresh = Suc 0\<rparr>
   = Inr (Inr 2, \<lparr>size_c = 1, lruList = [0], itemMap = [''b'' \<mapsto> 0],
        elements = [0 \<mapsto> \<lparr>Key = ''b'', Value = 2\<rparr>], fresh = Suc 0\<rparr>) \<and>
   [''a'' \<mapsto> (0::nat)] ''a'' \<noteq> None \<and>
   Set ''a'' 5 \<lparr>size_c = 1, lruList = [0], itemMap = [''a'' \<mapsto> 0],
        elements = [0 \<mapsto> \<lparr>Key = ''a'', Value = 1::int\<rparr>], fresh = Suc 0\<rparr>
   = Inr (None, \<lparr>size_c = 1, lruList = [0], itemMap = [''a'' \<mapsto> 0],
        elements = [0 \<mapsto> \<lparr>Key = ''a'', Value = 5\<rparr>], fresh = Suc 0\<rparr>) \<and>
   Get ''a'' \<lparr>size_c = 1, lruList = [0], itemMap = [''a'' \<mapsto> 0],
        elements = [0 \<mapsto> \<lparr>Key = ''a'', Value = 5::int\<rparr>], fresh = Suc 0\<rparr>
   = Inr (Inr 5, \<lparr>size_c = 1, lruList = [0], itemMap = [''a'' \<mapsto> 0],
        elements = [0 \<mapsto> \<lparr>Key = ''a'', Value = 5\<rparr>], fresh = Suc 0\<rparr>)"
proof -
  let ?init = "\<lparr>size_c = 1, lruList = [], itemMap = Map.empty, elements = Map.empty,
                 fresh = 0\<rparr> :: (string, int) Cache"
  let ?full = "\<lparr>size_c = 1, lruList = [0], itemMap = [''a'' \<mapsto> 0],
                 elements = [0 \<mapsto> \<lparr>Key = ''a'', Value = 1\<rparr>], fresh = Suc 0\<rparr>
               :: (string, int) Cache"
  have h1: "New 1 = Inr ?init" by (simp add: New_def)
  have h2: "run [CallSet ''a'' 1] ?init = Inr ?full"
    by (simp add: Set_def add_def list_Len_def list_PushFront_def)
  from Set_then_Get[OF h1 h2, of "''b''" 2] Set_then_Get[OF h1 h2, of "''a''" 5]
  show ?thesis
    by (simp add: New_def Set_def Get_def add_def list_Len_def list_Back_def
        list_MoveToFront_def list_PushFront_def)
qed

subsection \<open>C6\<close>

text \<open>
  Claim C6. In any cache whose index map holds \<open>k\<close>, \<open>Add(k, v)\<close> returns
  \<open>ErrNotStored\<close> and the cache it leaves is the cache it was given: values, count and
  order are untouched. On a new cache of any positive size, \<open>Add(a, v1)\<close> stores, a second
  \<open>Add(a, v2)\<close> returns \<open>ErrNotStored\<close>, and \<open>Get(a)\<close> then returns \<open>v1\<close>.
\<close>

theorem Add_present_is_rejected:
  "(itemMap c k \<noteq> None \<longrightarrow> Add k v c = Inr (Some ErrNotStored, c)) \<and>
   (0 < n \<longrightarrow>
      (\<exists>c1 c2 c3. New n = Inr c1 \<and> Add a v1 c1 = Inr (None, c2) \<and>
         Add a v2 c2 = Inr (Some ErrNotStored, c2) \<and> Get a c2 = Inr (Inr v1, c3)))"
  by (auto simp: Add_def New_def add_def Get_def list_Len_def list_PushFront_def
      list_MoveToFront_def)

theorem Add_present_is_rejected_witness:
  "[''a'' \<mapsto> (0::nat)] ''a'' \<noteq> None \<and>
   Add ''a'' 7 \<lparr>size_c = 1, lruList = [0], itemMap = [''a'' \<mapsto> 0],
        elements = [0 \<mapsto> \<lparr>Key = ''a'', Value = 1::int\<rparr>], fresh = Suc 0\<rparr>
   = Inr (Some ErrNotStored, \<lparr>size_c = 1, lruList = [0], itemMap = [''a'' \<mapsto> 0],
        elements = [0 \<mapsto> \<lparr>Key = ''a'', Value = 1\<rparr>], fresh = Suc 0\<rparr>) \<and>
   (0::int) < 1 \<and>
   New 1 = Inr (\<lparr>size_c = 1, lruList = [], itemMap = Map.empty, elements = Map.empty,
                  fresh = 0\<rparr> :: (string, int) Cache) \<and>
   Add ''a'' (1::int)
     \<lparr>size_c = 1, lruList = [], itemMap = Map.empty, elements = Map.empty, fresh = 0\<rparr>
   = Inr (None, \<lparr>size_c = 1, lruList = [0], itemMap = [''a'' \<mapsto> 0],
        elements = [0 \<mapsto> \<lparr>Key = ''a'', Value = 1\<rparr>], fresh = Suc 0\<rparr>) \<and>
   Add ''a'' 2 \<lparr>size_c = 1, lruList = [0], itemMap = [''a'' \<mapsto> 0],
        elements = [0 \<mapsto> \<lparr>Key = ''a'', Value = 1::int\<rparr>], fresh = Suc 0\<rparr>
   = Inr (Some ErrNotStored, \<lparr>size_c = 1, lruList = [0], itemMap = [''a'' \<mapsto> 0],
        elements = [0 \<mapsto> \<lparr>Key = ''a'', Value = 1\<rparr>], fresh = Suc 0\<rparr>) \<and>
   Get ''a'' \<lparr>size_c = 1, lruList = [0], itemMap = [''a'' \<mapsto> 0],
        elements = [0 \<mapsto> \<lparr>Key = ''a'', Value = 1::int\<rparr>], fresh = Suc 0\<rparr>
   = Inr (Inr 1, \<lparr>size_c = 1, lruList = [0], itemMap = [''a'' \<mapsto> 0],
        elements = [0 \<mapsto> \<lparr>Key = ''a'', Value = 1\<rparr>], fresh = Suc 0\<rparr>)"
proof -
  let ?full = "\<lparr>size_c = 1, lruList = [0], itemMap = [''a'' \<mapsto> 0],
                 elements = [0 \<mapsto> \<lparr>Key = ''a'', Value = 1\<rparr>], fresh = Suc 0\<rparr>
               :: (string, int) Cache"
  from Add_present_is_rejected[where c = ?full and k = "''a''" and v = 7 and n = 1
      and a = "''a''" and ?v1.0 = 1 and ?v2.0 = 2]
  show ?thesis
    by (simp add: New_def Add_def Get_def add_def list_Len_def list_MoveToFront_def
        list_PushFront_def)
qed

subsection \<open>C7\<close>

text \<open>
  Claim C7. On a reachable cache, \<open>Remove(k)\<close> returns no error exactly when \<open>k\<close> is
  present. In that case \<open>k\<close> leaves the index map and its entry leaves the list, the other
  entries keep their order, a following \<open>Get(k)\<close> returns \<open>ErrNotFound\<close>, and a second
  \<open>Remove(k)\<close> returns \<open>ErrNotFound\<close>. When \<open>k\<close> is absent \<open>Remove(k)\<close> returns
  \<open>ErrNotFound\<close> and leaves the cache as it was.
\<close>

theorem Remove_behaviour:
  assumes "New n = Inr c0" and "run cs c0 = Inr c"
  shows "((\<exists>c'. Remove k c = Inr (None, c')) = (itemMap c k \<noteq> None)) \<and>
     (itemMap c k \<noteq> None \<longrightarrow>
        (\<exists>c'. Remove k c = Inr (None, c') \<and> itemMap c' = (itemMap c)(k := None) \<and>
           entries c' = filter (\<lambda>x. fst x \<noteq> k) (entries c) \<and>
           Get k c' = Inr (Inl ErrNotFound, c') \<and>
           Remove k c' = Inr (Some ErrNotFound, c'))) \<and>
     (itemMap c k = None \<longrightarrow> Remove k c = Inr (Some ErrNotFound, c))"
proof -
  have inv: "cache_inv c" using reached_inv[OF assms] .
  have hit: "\<exists>c'. Remove k c = Inr (None, c') \<and> itemMap c' = (itemMap c)(k := None) \<and>
           entries c' = filter (\<lambda>x. fst x \<noteq> k) (entries c) \<and>
           Get k c' = Inr (Inl ErrNotFound, c') \<and>
           Remove k c' = Inr (Some ErrNotFound, c')" if "itemMap c k \<noteq> None"
  proof -
    from that obtain e where e: "itemMap c k = Some e" by auto
    from Remove_hit[OF inv e] obtain c' where
      c': "Remove k c = Inr (None, c')" "itemMap c' = (itemMap c)(k := None)"
          "entries c' = filter (\<lambda>x. fst x \<noteq> k) (entries c)"
      by blast
    have "itemMap c' k = None" using c'(2) by simp
    then show ?thesis using c' by (simp add: Get_miss Remove_miss)
  qed
  have miss: "Remove k c = Inr (Some ErrNotFound, c)" if "itemMap c k = None"
    using that by (rule Remove_miss)
  have "(\<exists>c'. Remove k c = Inr (None, c')) = (itemMap c k \<noteq> None)"
    using hit miss by (cases "itemMap c k") auto
  then show ?thesis using hit miss by blast
qed

theorem Remove_behaviour_witness:
  "New 1 = Inr (\<lparr>size_c = 1, lruList = [], itemMap = Map.empty, elements = Map.empty,
                  fresh = 0\<rparr> :: (string, int) Cache) \<and>
   run [CallSet ''a'' (1::int)]
     \<lparr>size_c = 1, lruList = [], itemMap = Map.empty, elements = Map.empty, fresh = 0\<rparr>
   = Inr \<lparr>size_c = 1, lruList = [0], itemMap = [''a'' \<mapsto> 0],
          elements = [0 \<mapsto> \<lparr>Key = ''a'', Value = 1\<rparr>], fresh = Suc 0\<rparr> \<and>
   [''a'' \<mapsto> (0::nat)] ''a'' \<noteq> None \<and>
   Remove ''a'' \<lparr>size_c = 1, lruList = [0], itemMap = [''a'' \<mapsto> 0],
        elements = [0 \<mapsto> \<lparr>Key = ''a'', Value = 1::int\<rparr>], fresh = Suc 0\<rparr>
   = Inr (None, \<lparr>size_c = 1, lruList = [], itemMap = Map.empty,
        elements = [0 \<mapsto> \<lparr>Key = ''a'', Value = 1\<rparr>], fresh = Suc 0\<rparr>) \<and>
   Get ''a'' \<lparr>size_c = 1, lruList = [], itemMap = Map.empty,
        elements = [0 \<mapsto> \<lparr>Key = ''a'', Value = 1::int\<rparr>], fresh = Suc 0\<rparr>
   = Inr (Inl ErrNotFound, \<lparr>size_c = 1, lruList = [], itemMap = Map.empty,
        elements = [0 \<mapsto> \<lparr>Key = ''a'', Value = 1\<rparr>], fresh = Suc 0\<rparr>) \<and>
   Remove ''a'' \<lparr>size_c = 1, lruList = [], itemMap = Map.empty,
        elements = [0 \<mapsto> \<lparr>Key = ''a'', Value = 1::int\<rparr>], fresh = Suc 0\<rparr>
   = Inr (Some ErrNotFound, \<lparr>size_c = 1, lruList = [], itemMap = Map.empty,
        elements = [0 \<mapsto> \<lparr>Key = ''a'', Value = 1\<rparr>], fresh = Suc 0\<rparr>) \<and>
   [''a'' \<mapsto> (0::nat)] ''b'' = None \<and>
   Remove ''b'' \<lparr>size_c = 1, lruList = [0], itemMap = [''a'' \<mapsto> 0],
        elements = [0 \<mapsto> \<lparr>Key = ''a'', Value = 1::int\<rparr>], fresh = Suc 0\<rparr>
   = Inr (Some ErrNotFound, \<lparr>size_c = 1, lruList = [0], itemMap = [''a'' \<mapsto> 0],
        elements = [0 \<mapsto> \<lparr>Key = ''a'', Value = 1\<rparr>], fresh = Suc 0\<rparr>)"
proof -
  let ?init = "\<lparr>size_c = 1, lruList = [], itemMap = Map.empty, elements = Map.empty,
                 fresh = 0\<rparr> :: (string, int) Cache"
  let ?full = "\<lparr>size_c = 1, lruList = [0], itemMap = [''a'' \<mapsto> 0],
                 elements = [0 \<mapsto> \<lparr>Key = ''a'', Value = 1\<rparr>], fresh = Suc 0\<rparr>
               :: (string, int) Cache"
  have h1: "New 1 = Inr ?init" by (simp add: New_def)
  have h2: "run [CallSet ''a'' 1] ?init = Inr ?full"
    by (simp add: Set_def add_def list_Len_def list_PushFront_def)
  from Remove_behaviour[OF h1 h2, of "''a''"] Remove_behaviour[OF h1 h2, of "''b''"]
  show ?thesis
    by (simp add: New_def Set_def Get_def Remove_def remove_def add_def list_Len_def
        list_Remove_def list_PushFront_def)
qed

subsection \<open>C8\<close>

text \<open>
  Claim C8. After \<open>Purge()\<close> on any cache, \<open>Len()\<close> is 0, \<open>Size()\<close> is what it
  was, there are no entries, and \<open>Get\<close> of any key returns \<open>ErrNotFound\<close>.
\<close>

theorem Purge_empties:
  "Len (Purge c) = 0 \<and> Size (Purge c) = Size c \<and> entries (Purge c) = [] \<and>
   Get k (Purge c) = Inr (Inl ErrNotFound, Purge c)"
  by (simp add: Purge_def Len_def Size_def list_Len_def entries_def Get_def)

theorem Purge_empties_witness:
  "Len (Purge \<lparr>size_c = 1, lruList = [0], itemMap = [''a'' \<mapsto> 0],
        elements = [0 \<mapsto> \<lparr>Key = ''a'', Value = 1::int\<rparr>], fresh = Suc 0\<rparr>) = 0 \<and>
   Size (Purge \<lparr>size_c = 1, lruList = [0], itemMap = [''a'' \<mapsto> 0],
        elements = [0 \<mapsto> \<lparr>Key = ''a'', Value = 1::int\<rparr>], fresh = Suc 0\<rparr>) = 1 \<and>
   Get ''a'' (Purge \<lparr>size_c = 1, lruList = [0], itemMap = [''a'' \<mapsto> 0],
        elements = [0 \<mapsto> \<lparr>Key = ''a'', Value = 1::int\<rparr>], fresh = Suc 0\<rparr>)
   = Inr (Inl ErrNotFound, \<lparr>size_c = 1, lruList = [], itemMap = Map.empty,
        elements = [0 \<mapsto> \<lparr>Key = ''a'', Value = 1\<rparr>], fresh = Suc 0\<rparr>)"
proof -
  let ?full = "\<lparr>size_c = 1, lruList = [0], itemMap = [''a'' \<mapsto> 0],
                 elements = [0 \<mapsto> \<lparr>Key = ''a'', Value = 1\<rparr>], fresh = Suc 0\<rparr>
               :: (string, int) Cache"
  from Purge_empties[of ?full "''a''"] show ?thesis
    by (simp add: Purge_def Size_def)
qed

subsection \<open>C9\<close>

text \<open>
  Claim C9. \<open>New(n)\<close> panics exactly when \<open>n \<le> 0\<close>, with the panic of its size
  check. For \<open>0 < n\<close> it returns a cache of size \<open>n\<close> on which every sequence of calls
  of the public methods runs to its end without a panic.
\<close>

theorem New_panics_iff_nonpositive:
  "((\<exists>p. (New n :: panic + ('k, 'v) Cache) = Inl p) = (n \<le> 0)) \<and>
   (n \<le> 0 \<longrightarrow> (New n :: panic + ('k, 'v) Cache) = Inl (SizePanic n)) \<and>
   (0 < n \<longrightarrow>
      (\<exists>c :: ('k, 'v) Cache. New n = Inr c \<and> Size c = n \<and> (\<forall>cs. \<exists>c'. run cs c = Inr c')))"
proof -
  have "\<exists>c :: ('k, 'v) Cache. New n = Inr c \<and> Size c = n \<and> (\<forall>cs. \<exists>c'. run cs c = Inr c')"
    if "0 < n"
  proof -
    let ?c = "\<lparr>size_c = n, lruList = [], itemMap = Map.empty, elements = Map.empty,
                fresh = 0\<rparr> :: ('k, 'v) Cache"
    have new: "New n = Inr ?c" using that by (simp add: New_def)
    have "\<exists>c'. run cs ?c = Inr c'" for cs
      using run_inv[OF New_inv[OF new], of cs] by blast
    then show ?thesis using new by (simp add: Size_def)
  qed
  then show ?thesis by (auto simp: New_def)
qed

theorem New_panics_iff_nonpositive_witness:
  "(0::int) \<le> 0 \<and>
   (New 0 :: panic + (string, int) Cache) = Inl (SizePanic 0) \<and>
   (0::int) < 1 \<and>
   New 1 = Inr (\<lparr>size_c = 1, lruList = [], itemMap = Map.empty, elements = Map.empty,
                  fresh = 0\<rparr> :: (string, int) Cache) \<and>
   Size (\<lparr>size_c = 1, lruList = [], itemMap = Map.empty, elements = Map.empty,
           fresh = 0\<rparr> :: (string, int) Cache) = 1 \<and>
   (\<exists>c'. run [CallSet ''a'' (1::int), CallGet ''a'', CallRemove ''a'']
           \<lparr>size_c = 1, lruList = [], itemMap = Map.empty, elements = Map.empty, fresh = 0\<rparr>
         = Inr c')"
proof -
  from New_panics_iff_nonpositive[where n = 0 and ?'k = string and ?'v = int]
    New_panics_iff_nonpositive[where n = 1 and ?'k = string and ?'v = int]
  show ?thesis
    by (simp add: New_def Size_def Set_def Get_def Remove_def remove_def add_def list_Len_def
        list_MoveToFront_def list_Remove_def list_PushFront_def)
qed

subsection \<open>C10\<close>

text \<open>
  Claim C10. For \<open>0 < n\<close> the cache that \<open>New(n)\<close> returns is empty: \<open>Len()\<close> is 0,
  \<open>Size()\<close> is \<open>n\<close>, there are no entries, and \<open>Get\<close> of any key returns
  \<open>ErrNotFound\<close> and leaves the cache as it was.
\<close>

theorem New_is_empty:
  "0 < n \<Longrightarrow>
   \<exists>c. New n = Inr c \<and> Len c = 0 \<and> Size c = n \<and> entries c = [] \<and>
       (\<forall>k. Get k c = Inr (Inl ErrNotFound, c))"
  by (simp add: New_def Len_def Size_def list_Len_def entries_def Get_def)

theorem New_is_empty_witness:
  "(0::int) < 1 \<and>
   New 1 = Inr (\<lparr>size_c = 1, lruList = [], itemMap = Map.empty, elements = Map.empty,
                  fresh = 0\<rparr> :: (string, int) Cache) \<and>
   Len (\<lparr>size_c = 1, lruList = [], itemMap = Map.empty, elements = Map.empty,
          fresh = 0\<rparr> :: (string, int) Cache) = 0 \<and>
   Size (\<lparr>size_c = 1, lruList = [], itemMap = Map.empty, elements = Map.empty,
           fresh = 0\<rparr> :: (string, int) Cache) = 1 \<and>
   Get ''a'' (\<lparr>size_c = 1, lruList = [], itemMap = Map.empty, elements = Map.empty,
           fresh = 0\<rparr> :: (string, int) Cache)
   = Inr (Inl ErrNotFound, \<lparr>size_c = 1, lruList = [], itemMap = Map.empty,
           elements = Map.empty, fresh = 0\<rparr>)"
proof -
  have h: "(0::int) < 1" by simp
  from New_is_empty[OF h, where ?'a = string and ?'b = int] show ?thesis
    by (simp add: New_def Len_def Size_def list_Len_def Get_def)
qed

end
